theory Spec2Isabelle
  imports Complex_Main "HOL-Library.Log_Nat"
begin

section \<open>Three-dimensional Euclidean distance transform (EuclideanDist3d.c)\<close>

text \<open>
  The transform takes a volume of single-bit voxels, indexed by band, row and column, and
  computes for every voxel the distance to the nearest foreground voxel. It runs three
  passes over a field of squared distances (along the columns, the rows and the bands)
  and then takes square roots. There are two engines: \<open>VEDistFloat3d\<close> with a field
  of \<open>VFloat\<close> and \<open>VEDistShort3d\<close> with a field of \<open>VShort\<close>, whose output is scaled by 10.

  The counters, step counts and products of type \<open>int\<close> are unbounded integers here;
  in the code they have 32 bits, which the squares of step counts exceed only for extents
  above 46340.
\<close>

subsection \<open>Pixel addressing and element types\<close>

text \<open>
  A \<open>VBit\<close> pixel holds 0 or 1; it is a \<open>bool\<close> here, \<open>True\<close> for 1 (foreground).
  The pixels of an image lie in one block, band after band and row after row, so that
  \<open>VPixel(img,b,r,c)\<close> is the element of the block at the index below and a pixel pointer
  is such an index.
\<close>

definition VPixelIndex :: "nat \<Rightarrow> nat \<Rightarrow> nat \<Rightarrow> nat \<Rightarrow> nat \<Rightarrow> nat" where
  "VPixelIndex nrows ncols b r c = (b * nrows + r) * ncols + c"

text \<open>
  A \<open>VShort\<close> is a 16-bit signed integer. The field of the short engine holds the values
  of its elements as integers; \<open>to_VShort\<close> is the conversion \<open>(VShort) x\<close> of an \<open>int\<close>,
  which wraps around modulo \<open>2^16\<close>.
\<close>

definition to_VShort :: "int \<Rightarrow> int" where
  "to_VShort x = (x + 32768) mod 65536 - 32768"

text \<open>
  The conversion of a \<open>double\<close> with an integral value to \<open>VShort\<close>. C leaves it undefined
  when the value is not representable, and so does the model.
\<close>

definition double_to_VShort :: "int \<Rightarrow> int" where
  "double_to_VShort x = (if - 32768 \<le> x \<and> x \<le> 32767 then x else undefined)"

text \<open>
  A \<open>VFloat\<close> is an IEEE single: 24 significant bits, rounded to the nearest value, a
  tie to the one with an even last bit. Up to the third pass the field of the float engine
  holds integers (squares of step counts and sums of such), so its elements are integers
  here as well; \<open>to_VFloat\<close> is the conversion of an integer to \<open>VFloat\<close>. It keeps a
  number below \<open>2^24\<close> and rounds a larger one to a multiple of \<open>2^e\<close>, where \<open>e\<close>
  is the number of its bits beyond 24. The range of the exponent is not modelled: the values
  of the field stay far below \<open>FLT_MAX\<close>.
\<close>

definition round_significand :: "nat \<Rightarrow> int \<Rightarrow> int" where
  "round_significand p x =
     (if x < 2 ^ p then x
      else let e = nat (bitlen x - int p);
               q = x div 2 ^ e;
               r = x mod 2 ^ e
           in if 2 * r < 2 ^ e \<or> (2 * r = 2 ^ e \<and> even q) then q * 2 ^ e
              else (q + 1) * 2 ^ e)"

definition to_VFloat :: "int \<Rightarrow> int" where
  "to_VFloat x = (if 0 \<le> x then round_significand 24 x else - round_significand 24 (- x))"

text \<open>
  The same rounding on the real numbers, for the square roots of the last step: to the
  nearest number with \<open>p\<close> significant bits (24 for a \<open>VFloat\<close>, 53 for a \<open>double\<close>).
\<close>

definition rne :: "real \<Rightarrow> int" where
  "rne x =
     (if x - real_of_int \<lfloor>x\<rfloor> < 1 / 2 then \<lfloor>x\<rfloor>
      else if 1 / 2 < x - real_of_int \<lfloor>x\<rfloor> then \<lfloor>x\<rfloor> + 1
      else if even \<lfloor>x\<rfloor> then \<lfloor>x\<rfloor> else \<lfloor>x\<rfloor> + 1)"

definition float_round :: "nat \<Rightarrow> real \<Rightarrow> real" where
  "float_round p x =
     (if x = 0 then 0
      else let e = \<lfloor>log 2 \<bar>x\<bar>\<rfloor> - int p + 1
           in sgn x * real_of_int (rne (\<bar>x\<bar> / 2 powr real_of_int e)) * 2 powr real_of_int e)"

text \<open>
  Modelled from the spec: \<open>VPixelMaxValue\<close> is not part of the source file; it gives the
  largest value of the destination's element type, the representation-specific maximum.
  For \<open>VShort\<close> that is \<open>2^15 - 1\<close>, for \<open>VFloat\<close> it is
  \<open>FLT_MAX = (2^24 - 1) * 2^104\<close>, an integer.
\<close>

definition VShort_max :: int where
  "VShort_max = 32767"

definition VFloat_max :: int where
  "VFloat_max = (2 ^ 24 - 1) * 2 ^ 104"

text \<open>
  The integer part of a square root, \<open>(int) sqrt(x)\<close>, computed on the integers (the
  \<open>double\<close> square root of an integer below \<open>2^52\<close> has the integer part of the exact
  one). The square root of a negative number is a NaN in C and its conversion to \<open>int\<close>
  is undefined, and so it is here.
\<close>

definition isqrt_step :: "int \<Rightarrow> int \<Rightarrow> int" where
  "isqrt_step n r = (if (r + 1) * (r + 1) \<le> n then r + 1 else r)"

function isqrt :: "int \<Rightarrow> int" where
  "isqrt n = (if n < 4 then (if n \<le> 0 then 0 else 1)
              else isqrt_step n (2 * isqrt (n div 4)))"
  by pat_completeness auto
termination
  by (relation "measure nat") auto

definition int_sqrt :: "int \<Rightarrow> int" where
  "int_sqrt x = (if 0 \<le> x then isqrt x else undefined)"

subsection \<open>First pass: nearest foreground voxel along the row\<close>

text \<open>
  The two scanning loops of lines 97 to 107 (and 257 to 265). The pointer \<open>srcpix\<close> and
  the column counter move together; the loops return the counter.
\<close>

function scan_forward :: "bool list \<Rightarrow> int \<Rightarrow> int \<Rightarrow> int \<Rightarrow> int" where
  "scan_forward src ncols srcpix cc1 =
     (if cc1 < ncols \<and> \<not> src ! nat srcpix
      then scan_forward src ncols (srcpix + 1) (cc1 + 1) else cc1)"
  by pat_completeness auto
termination
  by (relation "measure (\<lambda>(src, ncols, srcpix, cc1). nat (ncols - cc1))") auto

function scan_backward :: "bool list \<Rightarrow> int \<Rightarrow> int \<Rightarrow> int" where
  "scan_backward src srcpix cc2 =
     (if 0 \<le> cc2 \<and> \<not> src ! nat srcpix
      then scan_backward src (srcpix - 1) (cc2 - 1) else cc2)"
  by pat_completeness auto
termination
  by (relation "measure (\<lambda>(src, srcpix, cc2). nat (cc2 + 1))") auto

declare scan_forward.simps [simp del] scan_backward.simps [simp del] isqrt.simps [simp del]

definition forward_steps :: "nat \<Rightarrow> nat \<Rightarrow> bool list \<Rightarrow> nat \<Rightarrow> nat \<Rightarrow> nat \<Rightarrow> int" where
  "forward_steps nrows ncols src b r c =
     (let cc1 = scan_forward src (int ncols) (int (VPixelIndex nrows ncols b r c)) (int c)
      in if cc1 \<ge> int ncols then int ncols else cc1 - int c)"

text \<open>The float engine tests \<open>cc2 <= 0\<close> (line 107), the short engine \<open>cc2 < 0\<close> (line 265).\<close>

definition backward_steps_float :: "nat \<Rightarrow> nat \<Rightarrow> bool list \<Rightarrow> nat \<Rightarrow> nat \<Rightarrow> nat \<Rightarrow> int" where
  "backward_steps_float nrows ncols src b r c =
     (let cc2 = scan_backward src (int (VPixelIndex nrows ncols b r c)) (int c)
      in if cc2 \<le> 0 then int ncols else int c - cc2)"

definition backward_steps_short :: "nat \<Rightarrow> nat \<Rightarrow> bool list \<Rightarrow> nat \<Rightarrow> nat \<Rightarrow> nat \<Rightarrow> int" where
  "backward_steps_short nrows ncols src b r c =
     (let cc2 = scan_backward src (int (VPixelIndex nrows ncols b r c)) (int c)
      in if cc2 < 0 then int ncols else int c - cc2)"

definition first_pass_float ::
  "nat \<Rightarrow> nat \<Rightarrow> nat \<Rightarrow> bool list \<Rightarrow> int list \<Rightarrow> int list" where
  "first_pass_float nbands nrows ncols src dest =
     fold (\<lambda>b. fold (\<lambda>r. fold (\<lambda>c dest.
       if src ! VPixelIndex nrows ncols b r c
       then dest[VPixelIndex nrows ncols b r c := 0]
       else
         let d1 = forward_steps nrows ncols src b r c;
             d2 = backward_steps_float nrows ncols src b r c;
             d = (if d1 \<le> d2 then d1 else d2)
         in dest[VPixelIndex nrows ncols b r c := to_VFloat (d * d)])
       [0..<ncols]) [0..<nrows]) [0..<nbands] dest"

text \<open>
  The short engine first looks for a foreground voxel in the row (lines 239 to 243). A
  row without one is filled with \<open>0.5 * nrows * nrows\<close>, a \<open>double\<close> that the
  assignment converts to \<open>VShort\<close>, dropping the fraction.
\<close>

definition first_pass_short ::
  "nat \<Rightarrow> nat \<Rightarrow> nat \<Rightarrow> bool list \<Rightarrow> int list \<Rightarrow> int list" where
  "first_pass_short nbands nrows ncols src dest =
     fold (\<lambda>b. fold (\<lambda>r dest.
       if list_ex (\<lambda>c. src ! VPixelIndex nrows ncols b r c) [0..<ncols]
       then
         fold (\<lambda>c dest.
           if src ! VPixelIndex nrows ncols b r c
           then dest[VPixelIndex nrows ncols b r c := 0]
           else
             let d1 = forward_steps nrows ncols src b r c;
                 d2 = backward_steps_short nrows ncols src b r c;
                 d = (if d1 < d2 then d1 else d2)
             in dest[VPixelIndex nrows ncols b r c := to_VShort (d * d)])
           [0..<ncols] dest
       else
         fold (\<lambda>c dest.
           dest[VPixelIndex nrows ncols b r c :=
                  double_to_VShort (int nrows * int nrows div 2)])
           [0..<ncols] dest)
       [0..<nrows]) [0..<nbands] dest"

subsection \<open>Second and third pass: minimum over a window along the rows, then the bands\<close>

text \<open>
  The inner loop of the short engine (lines 291 to 294 and 321 to 324): the least
  \<open>array[i] + (p - i)^2\<close> over \<open>istart \<le> i < iend\<close>, starting from \<open>dmax\<close>. Here
  \<open>dmin\<close> is a \<open>VShort\<close> and \<open>u\<close> a \<open>double\<close>, which holds the sum exactly; the
  assignment \<open>dmin = u\<close> runs only when \<open>u < dmin\<close>, where \<open>u\<close> is representable, so
  it keeps the value.
\<close>

definition window_min :: "int \<Rightarrow> int list \<Rightarrow> nat \<Rightarrow> int \<Rightarrow> int \<Rightarrow> int" where
  "window_min dmax array p istart iend =
     fold (\<lambda>i dmin.
       let u = array ! i + (int p - int i) * (int p - int i)
       in if u < dmin then u else dmin)
     [nat istart..<nat iend] dmax"

definition row_window_min :: "int \<Rightarrow> int list \<Rightarrow> nat \<Rightarrow> nat \<Rightarrow> int" where
  "row_window_min dmax array nrows r =
     (let g = int_sqrt (array ! r);
          istart = int r - g;
          istart = (if istart < 0 then 0 else istart);
          iend = int r + g + 1;
          iend = (if iend \<ge> int nrows then int nrows else iend)
      in window_min dmax array r istart iend)"

definition band_window_min :: "int \<Rightarrow> int list \<Rightarrow> nat \<Rightarrow> nat \<Rightarrow> int" where
  "band_window_min dmax array nbands b =
     (let g = int_sqrt (array ! b);
          istart = int b - g - 1;
          istart = (if istart < 0 then 0 else istart);
          iend = int b + g + 1;
          iend = (if iend \<ge> int nbands then int nbands else iend)
      in window_min dmax array b istart iend)"

text \<open>The second and the third pass of the short engine (lines 274 to 328).\<close>

definition second_pass ::
  "int \<Rightarrow> nat \<Rightarrow> nat \<Rightarrow> nat \<Rightarrow> bool list \<Rightarrow> int list \<Rightarrow> int list" where
  "second_pass dmax nbands nrows ncols src dest =
     fold (\<lambda>b. fold (\<lambda>c dest.
       let array = map (\<lambda>r. dest ! VPixelIndex nrows ncols b r c) [0..<nrows]
       in fold (\<lambda>r dest.
            if src ! VPixelIndex nrows ncols b r c then dest
            else dest[VPixelIndex nrows ncols b r c := row_window_min dmax array nrows r])
          [0..<nrows] dest)
       [0..<ncols]) [0..<nbands] dest"

definition third_pass ::
  "int \<Rightarrow> nat \<Rightarrow> nat \<Rightarrow> nat \<Rightarrow> bool list \<Rightarrow> int list \<Rightarrow> int list" where
  "third_pass dmax nbands nrows ncols src dest =
     fold (\<lambda>r. fold (\<lambda>c dest.
       let array = map (\<lambda>b. dest ! VPixelIndex nrows ncols b r c) [0..<nbands]
       in fold (\<lambda>b dest.
            if src ! VPixelIndex nrows ncols b r c then dest
            else dest[VPixelIndex nrows ncols b r c := band_window_min dmax array nbands b])
          [0..<nbands] dest)
       [0..<ncols]) [0..<nrows] dest"

text \<open>
  The same loops in the float engine (lines 123 to 184). There \<open>u\<close> and \<open>dmin\<close> are
  \<open>VFloat\<close> (line 68): the sum is formed in \<open>double\<close>, which holds it exactly as long
  as it is below \<open>2^53\<close>, and rounded when it is assigned to \<open>u\<close> (lines 142 and 175).
\<close>

definition window_min_float :: "int \<Rightarrow> int list \<Rightarrow> nat \<Rightarrow> int \<Rightarrow> int \<Rightarrow> int" where
  "window_min_float dmax array p istart iend =
     fold (\<lambda>i dmin.
       let u = to_VFloat (array ! i + (int p - int i) * (int p - int i))
       in if u < dmin then u else dmin)
     [nat istart..<nat iend] dmax"

definition row_window_min_float :: "int \<Rightarrow> int list \<Rightarrow> nat \<Rightarrow> nat \<Rightarrow> int" where
  "row_window_min_float dmax array nrows r =
     (let g = int_sqrt (array ! r);
          istart = int r - g;
          istart = (if istart < 0 then 0 else istart);
          iend = int r + g + 1;
          iend = (if iend \<ge> int nrows then int nrows else iend)
      in window_min_float dmax array r istart iend)"

definition band_window_min_float :: "int \<Rightarrow> int list \<Rightarrow> nat \<Rightarrow> nat \<Rightarrow> int" where
  "band_window_min_float dmax array nbands b =
     (let g = int_sqrt (array ! b);
          istart = int b - g - 1;
          istart = (if istart < 0 then 0 else istart);
          iend = int b + g + 1;
          iend = (if iend \<ge> int nbands then int nbands else iend)
      in window_min_float dmax array b istart iend)"

definition second_pass_float ::
  "int \<Rightarrow> nat \<Rightarrow> nat \<Rightarrow> nat \<Rightarrow> bool list \<Rightarrow> int list \<Rightarrow> int list" where
  "second_pass_float dmax nbands nrows ncols src dest =
     fold (\<lambda>b. fold (\<lambda>c dest.
       let array = map (\<lambda>r. dest ! VPixelIndex nrows ncols b r c) [0..<nrows]
       in fold (\<lambda>r dest.
            if src ! VPixelIndex nrows ncols b r c then dest
            else dest[VPixelIndex nrows ncols b r c :=
                        row_window_min_float dmax array nrows r])
          [0..<nrows] dest)
       [0..<ncols]) [0..<nbands] dest"

definition third_pass_float ::
  "int \<Rightarrow> nat \<Rightarrow> nat \<Rightarrow> nat \<Rightarrow> bool list \<Rightarrow> int list \<Rightarrow> int list" where
  "third_pass_float dmax nbands nrows ncols src dest =
     fold (\<lambda>r. fold (\<lambda>c dest.
       let array = map (\<lambda>b. dest ! VPixelIndex nrows ncols b r c) [0..<nbands]
       in fold (\<lambda>b dest.
            if src ! VPixelIndex nrows ncols b r c then dest
            else dest[VPixelIndex nrows ncols b r c :=
                        band_window_min_float dmax array nbands b])
          [0..<nbands] dest)
       [0..<ncols]) [0..<nrows] dest"

subsection \<open>Finalization and the two engines on pixel blocks\<close>

text \<open>
  Modelled from the spec: the macro \<open>VRint\<close> is not part of the source file. It rounds to
  the nearest integer, ties away from zero.
\<close>

definition VRint :: "real \<Rightarrow> int" where
  "VRint x = (if 0 \<le> x then \<lfloor>x + 1 / 2\<rfloor> else - \<lfloor>- x + 1 / 2\<rfloor>)"

text \<open>
  Lines 188 to 192 and 332 to 336. The float engine takes the square root in \<open>double\<close>
  and stores it in a \<open>VFloat\<close>: two roundings. The short engine rounds ten times the
  root to an integer and casts it to \<open>VShort\<close>.
\<close>

definition final_float :: "int \<Rightarrow> real" where
  "final_float v =
     (if 0 \<le> v then float_round 24 (float_round 53 (sqrt (real_of_int v))) else undefined)"

definition final_short :: "int \<Rightarrow> int" where
  "final_short v =
     (if 0 \<le> v then to_VShort (VRint (10 * sqrt (real_of_int v))) else undefined)"

text \<open>
  Modelled from the spec: \<open>VFillImage\<close> is not part of the source file. The field is
  created afresh for each call; here every pixel of the destination, which has the
  extents of the source, becomes the value given.
\<close>

definition VFillImage :: "nat \<Rightarrow> int \<Rightarrow> int list" where
  "VFillImage npixels v = replicate npixels v"

text \<open>
  The field after the three passes (lines 72 to 184 and 213 to 328), and the pixels of
  the output. The short engine sets the pixels to 0 once more in a loop of its own.
\<close>

definition squared_field_float :: "nat \<Rightarrow> nat \<Rightarrow> nat \<Rightarrow> bool list \<Rightarrow> int list" where
  "squared_field_float nbands nrows ncols src =
     (let npixels = nbands * nrows * ncols;
          dest = VFillImage npixels 0;
          dmax = VFloat_max;
          dest = first_pass_float nbands nrows ncols src dest;
          dest = second_pass_float dmax nbands nrows ncols src dest
      in third_pass_float dmax nbands nrows ncols src dest)"

definition VEDistFloat3d_pixels :: "nat \<Rightarrow> nat \<Rightarrow> nat \<Rightarrow> bool list \<Rightarrow> real list" where
  "VEDistFloat3d_pixels nbands nrows ncols src =
     map final_float (squared_field_float nbands nrows ncols src)"

definition squared_field_short :: "nat \<Rightarrow> nat \<Rightarrow> nat \<Rightarrow> bool list \<Rightarrow> int list" where
  "squared_field_short nbands nrows ncols src =
     (let npixels = nbands * nrows * ncols;
          dest = VFillImage npixels 0;
          dest = map (\<lambda>_. 0) dest;
          dmax = VShort_max;
          dest = first_pass_short nbands nrows ncols src dest;
          dest = second_pass dmax nbands nrows ncols src dest
      in third_pass dmax nbands nrows ncols src dest)"

definition VEDistShort3d_pixels :: "nat \<Rightarrow> nat \<Rightarrow> nat \<Rightarrow> bool list \<Rightarrow> int list" where
  "VEDistShort3d_pixels nbands nrows ncols src =
     map final_short (squared_field_short nbands nrows ncols src)"

subsection \<open>Images in memory, the engines and the dispatcher\<close>

datatype VRepnKind =
  VUnknownRepn | VBitRepn | VUByteRepn | VSByteRepn | VShortRepn | VLongRepn
  | VFloatRepn | VDoubleRepn

datatype pixel_data =
  BitData "bool list" | ShortData "int list" | FloatData "real list" | OtherData

record VImageRec =
  VImageNBands :: nat
  VImageNRows :: nat
  VImageNColumns :: nat
  VPixelRepn :: VRepnKind
  pixel_data :: pixel_data
  attributes :: "(string \<times> string) list"

text \<open>
  A \<open>VImage\<close> is a pointer to an image record: an index into the list of the images
  that exist, or \<open>None\<close> for \<open>NULL\<close>.
\<close>

type_synonym VImage = "nat option"
type_synonym heap = "VImageRec list"

datatype error = InvalidInputKind | UnsupportedOutputKind

definition new_pixel_data :: "VRepnKind \<Rightarrow> nat \<Rightarrow> pixel_data" where
  "new_pixel_data repn npixels =
     (if repn = VBitRepn then BitData (replicate npixels False)
      else if repn = VShortRepn then ShortData (replicate npixels 0)
      else if repn = VFloatRepn then FloatData (replicate npixels 0)
      else OtherData)"

text \<open>
  Modelled from the spec: \<open>VSelectDestImage\<close> is not part of the source file. It is the
  destination provisioner: it returns the caller's image when that has the wanted extents
  and element type, and a new image of those otherwise.
\<close>

definition VSelectDestImage ::
  "VImage \<Rightarrow> nat \<Rightarrow> nat \<Rightarrow> nat \<Rightarrow> VRepnKind \<Rightarrow> heap \<Rightarrow> VImage \<times> heap" where
  "VSelectDestImage dest nb nr nc repn h =
     (let compatible = (\<lambda>d. d < length h \<and> VImageNBands (h ! d) = nb \<and> VImageNRows (h ! d) = nr
                           \<and> VImageNColumns (h ! d) = nc \<and> VPixelRepn (h ! d) = repn);
          fresh = \<lparr>VImageNBands = nb, VImageNRows = nr, VImageNColumns = nc, VPixelRepn = repn,
                   pixel_data = new_pixel_data repn (nb * nr * nc), attributes = []\<rparr>
      in case dest of
           Some d \<Rightarrow> if compatible d then (Some d, h) else (Some (length h), h @ [fresh])
         | None \<Rightarrow> (Some (length h), h @ [fresh]))"

text \<open>
  Modelled from the spec: \<open>VCopyImageAttrs\<close> is not part of the source file. It copies
  the attributes of the source image onto the destination, as they are.
\<close>

definition VCopyImageAttrs :: "nat \<Rightarrow> nat \<Rightarrow> heap \<Rightarrow> heap" where
  "VCopyImageAttrs src dest h = h[dest := (h ! dest)\<lparr>attributes := attributes (h ! src)\<rparr>]"

text \<open>
  Modelled from the spec: \<open>VError\<close> is not part of the source file. It reports a fatal
  error and does not return: the call ends with the error and memory as it is.
\<close>

definition VError :: "error \<Rightarrow> heap \<Rightarrow> (error + VImage) \<times> heap" where
  "VError e h = (Inl e, h)"

text \<open>The pixels of a source image, read as \<open>VBit\<close>.\<close>

definition bit_pixels :: "VImageRec \<Rightarrow> bool list" where
  "bit_pixels img = (case pixel_data img of BitData bs \<Rightarrow> bs | _ \<Rightarrow> undefined)"

text \<open>
  The engines (lines 61 to 196 and 202 to 340). They read the pixels of the source and
  write the pixels of the destination and then its attributes; nothing else in memory.
  The passes read and write pixel by pixel. The destination is a short or float image,
  so for a single-bit source the two are distinct and every read sees the source as it
  is at the start of the call.
\<close>

definition VEDistFloat3d :: "nat \<Rightarrow> VImage \<Rightarrow> heap \<Rightarrow> VImage \<times> heap" where
  "VEDistFloat3d src dest h =
     (let nb = VImageNBands (h ! src); nr = VImageNRows (h ! src);
          nc = VImageNColumns (h ! src)
      in case VSelectDestImage dest nb nr nc VFloatRepn h of
           (None, h1) \<Rightarrow> (None, h1)
         | (Some d, h1) \<Rightarrow>
             let pix = VEDistFloat3d_pixels nb nr nc (bit_pixels (h1 ! src));
                 h2 = h1[d := (h1 ! d)\<lparr>pixel_data := FloatData pix\<rparr>];
                 h3 = VCopyImageAttrs src d h2
             in (Some d, h3))"

definition VEDistShort3d :: "nat \<Rightarrow> VImage \<Rightarrow> heap \<Rightarrow> VImage \<times> heap" where
  "VEDistShort3d src dest h =
     (let nb = VImageNBands (h ! src); nr = VImageNRows (h ! src);
          nc = VImageNColumns (h ! src)
      in case VSelectDestImage dest nb nr nc VShortRepn h of
           (None, h1) \<Rightarrow> (None, h1)
         | (Some d, h1) \<Rightarrow>
             let pix = VEDistShort3d_pixels nb nr nc (bit_pixels (h1 ! src));
                 h2 = h1[d := (h1 ! d)\<lparr>pixel_data := ShortData pix\<rparr>];
                 h3 = VCopyImageAttrs src d h2
             in (Some d, h3))"

text \<open>
  The dispatcher (lines 39 to 55). As \<open>VError\<close> does not return, the tests form a
  chain.
\<close>

definition VEuclideanDist3d ::
  "nat \<Rightarrow> VImage \<Rightarrow> VRepnKind \<Rightarrow> heap \<Rightarrow> (error + VImage) \<times> heap" where
  "VEuclideanDist3d src dest repn h =
     (if VPixelRepn (h ! src) \<noteq> VBitRepn then VError InvalidInputKind h
      else if repn = VShortRepn
        then (let (dest', h') = VEDistShort3d src dest h in (Inr dest', h'))
      else if repn = VFloatRepn
        then (let (dest', h') = VEDistFloat3d src dest h in (Inr dest', h'))
      else VError UnsupportedOutputKind h)"

subsection \<open>What the transform is to compute\<close>

text \<open>
  The squared Euclidean distance between two voxels, and the least squared distance from
  a voxel to a foreground voxel of the volume.
\<close>

definition sq_dist :: "nat \<times> nat \<times> nat \<Rightarrow> nat \<times> nat \<times> nat \<Rightarrow> int" where
  "sq_dist p q =
     (case (p, q) of ((b, r, c), (b', r', c')) \<Rightarrow>
        (int b - int b')\<^sup>2 + (int r - int r')\<^sup>2 + (int c - int c')\<^sup>2)"

definition foreground :: "nat \<Rightarrow> nat \<Rightarrow> nat \<Rightarrow> bool list \<Rightarrow> (nat \<times> nat \<times> nat) list" where
  "foreground nbands nrows ncols src =
     filter (\<lambda>(b, r, c). src ! VPixelIndex nrows ncols b r c)
       (List.product [0..<nbands] (List.product [0..<nrows] [0..<ncols]))"

definition min_sq_dist :: "nat \<Rightarrow> nat \<Rightarrow> nat \<Rightarrow> bool list \<Rightarrow> nat \<times> nat \<times> nat \<Rightarrow> int" where
  "min_sq_dist nbands nrows ncols src p =
     Min (set (map (sq_dist p) (foreground nbands nrows ncols src)))"

text \<open>
  The window of the second and third pass in the words of the specification: the indices
  from \<open>max(0, lo)\<close> up to, but not including, \<open>min(n, hi)\<close>; and the least
  \<open>scratch[i] + (p - i)^2\<close> over a set of indices.
\<close>

definition spec_window :: "int \<Rightarrow> nat \<Rightarrow> int \<Rightarrow> nat set" where
  "spec_window lo n hi = {nat (max 0 lo)..<nat (min (int n) hi)}"

definition spec_window_min :: "(nat \<Rightarrow> int) \<Rightarrow> nat \<Rightarrow> nat set \<Rightarrow> int" where
  "spec_window_min scratch p W = Min ((\<lambda>i. scratch i + (int p - int i)\<^sup>2) ` W)"

text \<open>
  The same minimum when every sum is rounded to a \<open>VFloat\<close> before it is compared.
\<close>

definition rounded_window_min :: "(nat \<Rightarrow> int) \<Rightarrow> nat \<Rightarrow> nat set \<Rightarrow> int" where
  "rounded_window_min scratch p W = Min ((\<lambda>i. to_VFloat (scratch i + (int p - int i)\<^sup>2)) ` W)"

text \<open>
  The reflection of a volume along the column axis: the voxel \<open>(b, r, c)\<close> of the result
  is the voxel \<open>(b, r, ncols - 1 - c)\<close> of the argument.
\<close>

definition reflect_columns :: "nat \<Rightarrow> nat \<Rightarrow> nat \<Rightarrow> 'a list \<Rightarrow> 'a list" where
  "reflect_columns nbands nrows ncols xs =
     concat (map (\<lambda>b. concat (map (\<lambda>r.
       map (\<lambda>c. xs ! VPixelIndex nrows ncols b r (ncols - 1 - c)) [0..<ncols])
       [0..<nrows])) [0..<nbands])"

subsection \<open>Example volumes\<close>

text \<open>
  A column of eight voxels (one band, eight rows, one column) and a row of three voxels
  (one band, one row, three columns), each with its first voxel in the foreground; and a
  memory that holds a single-bit image, a short image of the same extents and a float
  image of other extents.
\<close>

definition column8 :: "bool list" where
  "column8 = [True, False, False, False, False, False, False, False]"

text \<open>The field of the short engine after its first pass over the column of eight voxels.\<close>

definition column8_first :: "int list" where
  "column8_first = [0, 32, 32, 32, 32, 32, 32, 32]"

definition row3 :: "bool list" where
  "row3 = [True, False, False]"

text \<open>
  A row of three voxels with the middle one in the foreground; two voxels, the first in
  the foreground (read as one column of two rows, or as two bands of one voxel); and six
  voxels in three bands of two rows and one column, the first in the foreground.
\<close>

definition mid3 :: "bool list" where
  "mid3 = [False, True, False]"

definition pair2 :: "bool list" where
  "pair2 = [True, False]"

definition six :: "bool list" where
  "six = [True, False, False, False, False, False]"

text \<open>
  Nine voxels in three bands of three rows and one column, the first in the foreground,
  and the field of the float engine after its first pass over them.
\<close>

definition nine :: "bool list" where
  "nine = [True, False, False, False, False, False, False, False, False]"

definition nine_field :: "int list" where
  "nine_field = [0, 1, 1, 1, 1, 1, 1, 1, 1]"


text \<open>
  Two rows of 4098 voxels in one band, with one foreground voxel, in column 4096 of row 0;
  the field of the float engine after its first pass over them; and the values of that
  field along the rows at column 0.
\<close>

definition wide :: "bool list" where
  "wide = replicate 4096 False @ True # replicate 4099 False"

definition wide_first :: "int list" where
  "wide_first = first_pass_float 1 2 4098 wide (VFillImage (1 * 2 * 4098) 0)"

definition wide_scratch :: "nat \<Rightarrow> int" where
  "wide_scratch rr = wide_first ! VPixelIndex 2 4098 0 rr 0"

definition three_images :: heap where
  "three_images =
     [\<lparr>VImageNBands = 1, VImageNRows = 1, VImageNColumns = 3, VPixelRepn = VBitRepn,
        pixel_data = BitData row3, attributes = [(''voxel'', ''1 1 1'')]\<rparr>,
      \<lparr>VImageNBands = 1, VImageNRows = 1, VImageNColumns = 3, VPixelRepn = VShortRepn,
        pixel_data = ShortData [5, 7, 9], attributes = []\<rparr>,
      \<lparr>VImageNBands = 1, VImageNRows = 1, VImageNColumns = 2, VPixelRepn = VFloatRepn,
        pixel_data = FloatData [1, 2], attributes = []\<rparr>]"

section \<open>Square roots and rounding\<close>

lemma isqrt_bounds: "0 \<le> n \<Longrightarrow> 0 \<le> isqrt n \<and> (isqrt n)\<^sup>2 \<le> n \<and> n < (isqrt n + 1)\<^sup>2"
proof (induction n rule: isqrt.induct)
  case (1 n)
  show ?case
  proof (cases "n < 4")
    case True
    then have "isqrt n = (if n \<le> 0 then 0 else 1)"
      by (subst isqrt.simps) simp
    with True "1.prems" show ?thesis by (simp add: power2_eq_square)
  next
    case False
    define m where "m = n div 4"
    define k where "k = isqrt m"
    have "0 \<le> m" using "1.prems" by (simp add: m_def)
    with 1 False have ih: "0 \<le> k \<and> k\<^sup>2 \<le> m \<and> m < (k + 1)\<^sup>2"
      by (simp add: k_def m_def)
    have lo: "(2 * k)\<^sup>2 \<le> n"
    proof -
      have "(2 * k)\<^sup>2 = 4 * k\<^sup>2" by (simp add: power2_eq_square)
      also have "\<dots> \<le> 4 * m" using ih by simp
      also have "\<dots> \<le> n" by (simp add: m_def)
      finally show ?thesis .
    qed
    have hi: "n < (2 * k + 2)\<^sup>2"
    proof -
      have "n < 4 * (m + 1)" by (simp add: m_def)
      also have "\<dots> \<le> 4 * (k + 1)\<^sup>2" using ih by simp
      also have "\<dots> = (2 * k + 2)\<^sup>2" by (simp add: power2_eq_square algebra_simps)
      finally show ?thesis .
    qed
    have eq: "isqrt n = (if (2 * k + 1) * (2 * k + 1) \<le> n then 2 * k + 1 else 2 * k)"
      using False by (subst isqrt.simps) (simp add: isqrt_step_def k_def m_def)
    show ?thesis
    proof (cases "(2 * k + 1) * (2 * k + 1) \<le> n")
      case True
      then show ?thesis using eq hi ih by (simp add: power2_eq_square algebra_simps)
    next
      case False
      then show ?thesis using eq lo ih by (simp add: power2_eq_square)
    qed
  qed
qed

lemma int_sqrt_nonneg: "0 \<le> x \<Longrightarrow> 0 \<le> int_sqrt x"
  using isqrt_bounds [of x] by (simp add: int_sqrt_def)

lemma int_sqrt_bounds:
  assumes "0 \<le> x"
  shows "(int_sqrt x)\<^sup>2 \<le> x" and "x < (int_sqrt x + 1)\<^sup>2"
  using isqrt_bounds [of x] assms by (simp_all add: int_sqrt_def)

lemma int_sqrt_unique:
  assumes "0 \<le> k" and "k\<^sup>2 \<le> x" and "x < (k + 1)\<^sup>2"
  shows "int_sqrt x = k"
proof -
  have x: "0 \<le> x" using assms(2) by (smt (verit) zero_le_power2)
  let ?s = "int_sqrt x"
  have s: "0 \<le> ?s" "?s\<^sup>2 \<le> x" "x < (?s + 1)\<^sup>2"
    using int_sqrt_nonneg [OF x] int_sqrt_bounds [OF x] by simp_all
  have "?s\<^sup>2 < (k + 1)\<^sup>2" using s(2) assms(3) by linarith
  moreover have "0 \<le> k + 1" using assms(1) by simp
  ultimately have a: "?s < k + 1"
    by (rule power2_less_imp_less)
  have "k\<^sup>2 < (?s + 1)\<^sup>2" using s(3) assms(2) by linarith
  moreover have "0 \<le> ?s + 1" using s(1) by simp
  ultimately have b: "k < ?s + 1"
    by (rule power2_less_imp_less)
  from a b show ?thesis by linarith
qed

lemma int_sqrt_floor: "0 \<le> x \<Longrightarrow> int_sqrt x = \<lfloor>sqrt (real_of_int x)\<rfloor>"
proof -
  assume x: "0 \<le> x"
  let ?s = "int_sqrt x"
  have s: "0 \<le> ?s" "?s\<^sup>2 \<le> x" "x < (?s + 1)\<^sup>2"
    using int_sqrt_nonneg [OF x] int_sqrt_bounds [OF x] by simp_all
  have "real_of_int (?s\<^sup>2) \<le> real_of_int x"
    using s(2) by (simp only: of_int_le_iff)
  then have lo: "real_of_int ?s \<le> sqrt (real_of_int x)"
    by (simp add: real_le_rsqrt)
  have "real_of_int x < real_of_int ((?s + 1)\<^sup>2)"
    using s(3) by (simp only: of_int_less_iff)
  then have hi: "sqrt (real_of_int x) < real_of_int (?s + 1)"
    using s(1) by (simp add: real_less_lsqrt)
  show ?thesis
    by (rule sym, rule floor_unique) (use lo hi in simp_all)
qed

lemma floor_add_half: "\<lfloor>x + 1 / 2\<rfloor> = (\<lfloor>2 * x\<rfloor> + 1) div 2" for x :: real
proof (rule floor_unique)
  define k where "k = (\<lfloor>2 * x\<rfloor> + 1) div 2"
  have a: "2 * k \<le> \<lfloor>2 * x\<rfloor> + 1" and b: "\<lfloor>2 * x\<rfloor> \<le> 2 * k"
    by (simp_all add: k_def)
  have "real_of_int (2 * k) \<le> real_of_int (\<lfloor>2 * x\<rfloor> + 1)"
    using a by (simp only: of_int_le_iff)
  then show "real_of_int ((\<lfloor>2 * x\<rfloor> + 1) div 2) \<le> x + 1 / 2"
    unfolding k_def [symmetric] by simp linarith
  have "real_of_int \<lfloor>2 * x\<rfloor> \<le> real_of_int (2 * k)"
    using b by (simp only: of_int_le_iff)
  then show "x + 1 / 2 < real_of_int ((\<lfloor>2 * x\<rfloor> + 1) div 2) + 1"
    unfolding k_def [symmetric] by simp linarith
qed

lemma VRint_10_sqrt:
  assumes "0 \<le> v"
  shows "VRint (10 * sqrt (real_of_int v)) = (int_sqrt (400 * v) + 1) div 2"
proof -
  have "sqrt (real_of_int (400 * v)) = 2 * (10 * sqrt (real_of_int v))"
    using real_sqrt_mult [of 400 "real_of_int v"] real_sqrt_abs [of 20] by simp
  then have "int_sqrt (400 * v) = \<lfloor>2 * (10 * sqrt (real_of_int v))\<rfloor>"
    using assms int_sqrt_floor [of "400 * v"] by simp
  moreover have "0 \<le> 10 * sqrt (real_of_int v)" using assms by simp
  ultimately show ?thesis
    using floor_add_half [of "10 * sqrt (real_of_int v)"] by (simp add: VRint_def)
qed

lemma to_VShort_id: "- 32768 \<le> x \<Longrightarrow> x \<le> 32767 \<Longrightarrow> to_VShort x = x"
  by (simp add: to_VShort_def)

lemma final_short_eq:
  assumes v: "0 \<le> v" and k: "0 \<le> k" "k \<le> 32767"
    and lo: "(2 * k - 1)\<^sup>2 \<le> 400 * v" and hi: "400 * v < (2 * k + 1)\<^sup>2"
  shows "final_short v = k"
proof -
  let ?s = "int_sqrt (400 * v)"
  have x: "0 \<le> 400 * v" using v by simp
  have s: "0 \<le> ?s" "?s\<^sup>2 \<le> 400 * v" "400 * v < (?s + 1)\<^sup>2"
    using int_sqrt_nonneg [OF x] int_sqrt_bounds [OF x] by simp_all
  have "?s\<^sup>2 < (2 * k + 1)\<^sup>2" using s(2) hi by linarith
  moreover have "0 \<le> 2 * k + 1" using k by simp
  ultimately have a: "?s < 2 * k + 1" by (rule power2_less_imp_less)
  have "(2 * k - 1)\<^sup>2 < (?s + 1)\<^sup>2" using s(3) lo by linarith
  moreover have "0 \<le> ?s + 1" using s(1) by simp
  ultimately have b: "2 * k - 1 < ?s + 1" by (rule power2_less_imp_less)
  have "(?s + 1) div 2 = k" using a b by linarith
  then show ?thesis
    using v k by (simp add: final_short_def VRint_10_sqrt to_VShort_id)
qed

lemma final_short_0: "final_short 0 = 0"
  by (simp add: final_short_def VRint_def to_VShort_def)




section \<open>Pixel indices and loops that write one pixel at a time\<close>

lemma VPixelIndex_less:
  assumes "b < nb" "r < nr" "c < nc"
  shows "VPixelIndex nr nc b r c < nb * nr * nc"
proof -
  have "b * nr + r < nb * nr"
  proof -
    have "b * nr + r < b * nr + nr" using assms(2) by simp
    also have "\<dots> = (b + 1) * nr" by simp
    also have "\<dots> \<le> nb * nr" using assms(1) by (intro mult_le_mono1) simp
    finally show ?thesis .
  qed
  then have "(b * nr + r) + 1 \<le> nb * nr" by simp
  then have "((b * nr + r) + 1) * nc \<le> nb * nr * nc" by (rule mult_le_mono1)
  moreover have "(b * nr + r) * nc + c < ((b * nr + r) + 1) * nc" using assms(3) by simp
  ultimately show ?thesis by (simp add: VPixelIndex_def)
qed

lemma mult_add_inj:
  fixes a :: nat
  assumes "a * n + x = a' * n + x'" "x < n" "x' < n"
  shows "a = a' \<and> x = x'"
proof -
  have "(a * n + x) div n = a" "(a' * n + x') div n = a'"
    using assms(2,3) by simp_all
  then have "a = a'" using assms(1) by simp
  then show ?thesis using assms(1) by simp
qed

lemma VPixelIndex_inj:
  assumes "VPixelIndex nr nc b r c = VPixelIndex nr nc b' r' c'"
    and "r < nr" "c < nc" "r' < nr" "c' < nc"
  shows "b = b' \<and> r = r' \<and> c = c'"
proof -
  from assms have "b * nr + r = b' * nr + r' \<and> c = c'"
    unfolding VPixelIndex_def by (intro mult_add_inj) simp_all
  then show ?thesis using mult_add_inj [of b nr r b' r'] assms by simp
qed

lemma VPixelIndex_shift:
  "nat (int (VPixelIndex nr nc b r c) + (int k - int c)) = VPixelIndex nr nc b r k"
  if "c \<le> k" for k
proof -
  have "int (VPixelIndex nr nc b r c) + (int k - int c) = int (VPixelIndex nr nc b r k)"
    using that by (simp add: VPixelIndex_def)
  then show ?thesis by simp
qed

lemma VPixelIndex_shift_back:
  "nat (int (VPixelIndex nr nc b r c) - (int c - int k)) = VPixelIndex nr nc b r k"
  if "k \<le> c" for k
proof -
  have "int (VPixelIndex nr nc b r c) - (int c - int k) = int (VPixelIndex nr nc b r k)"
    using that by (simp add: VPixelIndex_def)
  then show ?thesis by simp
qed

lemma length_fold_update:
  "length (fold (\<lambda>i xs. if p i then xs else xs[ix i := v i]) is xs) = length xs"
  by (induction "is" arbitrary: xs) simp_all

lemma fold_update_other:
  "\<forall>i\<in>set is. ix i \<noteq> k \<Longrightarrow>
   fold (\<lambda>i xs. if p i then xs else xs[ix i := v i]) is xs ! k = xs ! k"
  by (induction "is" arbitrary: xs) simp_all

lemma fold_update_nth:
  assumes "inj_on ix (set is)" "i \<in> set is" "ix i < length xs"
  shows "fold (\<lambda>i xs. if p i then xs else xs[ix i := v i]) is xs ! ix i
         = (if p i then xs ! ix i else v i)"
  using assms
proof (induction "is" arbitrary: xs)
  case Nil
  then show ?case by simp
next
  case (Cons j js)
  let ?F = "\<lambda>i xs. if p i then xs else xs[ix i := v i]"
  have inj: "inj_on ix (set js)" using Cons.prems(1) by (simp add: inj_on_def)
  show ?case
  proof (cases "i \<in> set js")
    case True
    have len: "ix i < length (?F j xs)" using Cons.prems(3) by simp
    have "fold ?F js (?F j xs) ! ix i = (if p i then ?F j xs ! ix i else v i)"
      using Cons.IH [OF inj True len] .
    moreover have "p i \<Longrightarrow> ?F j xs ! ix i = xs ! ix i"
    proof -
      assume pi: "p i"
      show ?thesis
      proof (cases "p j")
        case True
        then show ?thesis by simp
      next
        case False
        then have "j \<noteq> i" using pi by auto
        then have "ix j \<noteq> ix i"
          using Cons.prems(1,2) by (auto simp: inj_on_def)
        then show ?thesis using False by simp
      qed
    qed
    ultimately show ?thesis by simp
  next
    case False
    then have ij: "i = j" using Cons.prems(2) by simp
    have "\<forall>i'\<in>set js. ix i' \<noteq> ix i"
      using False Cons.prems(1) ij by (auto simp: inj_on_def)
    then have "fold ?F js (?F j xs) ! ix i = ?F j xs ! ix i"
      by (rule fold_update_other)
    then show ?thesis using ij Cons.prems(3) by simp
  qed
qed

lemma fold_lanes_other:
  assumes "\<And>l d. l \<in> set ls \<Longrightarrow> G l d ! k = d ! k"
  shows "fold G ls d ! k = d ! k"
  using assms
proof (induction ls arbitrary: d)
  case Nil
  show ?case by simp
next
  case (Cons a ls)
  have "fold G ls (G a d) ! k = G a d ! k"
    by (rule Cons.IH) (rule Cons.prems, simp)
  also have "\<dots> = d ! k" by (rule Cons.prems) simp
  finally show ?case by simp
qed

lemma fold_lanes:
  assumes len: "\<And>l d. length (G l d) = length d"
    and frame: "\<And>l d k. l \<in> set ls \<Longrightarrow> k \<notin> I l \<Longrightarrow> G l d ! k = d ! k"
    and local: "\<And>l d d'. l \<in> set ls \<Longrightarrow> length d = N \<Longrightarrow> length d' = N \<Longrightarrow>
                  (\<And>k. k \<in> I l \<Longrightarrow> d ! k = d' ! k) \<Longrightarrow> k \<in> I l \<Longrightarrow> G l d ! k = G l d' ! k"
    and disj: "\<And>l l'. l \<in> set ls \<Longrightarrow> l' \<in> set ls \<Longrightarrow> l \<noteq> l' \<Longrightarrow> I l \<inter> I l' = {}"
    and dist: "distinct ls"
    and l: "l \<in> set ls" and k: "k \<in> I l"
    and N: "length d = N"
  shows "fold G ls d ! k = G l d ! k"
  using frame local disj dist l N
proof (induction ls arbitrary: d)
  case Nil
  then show ?case by simp
next
  case (Cons a ls)
  note frame' = Cons.prems(1) and local' = Cons.prems(2) and disj' = Cons.prems(3)
  have fr: "\<And>l d k. l \<in> set ls \<Longrightarrow> k \<notin> I l \<Longrightarrow> G l d ! k = d ! k"
    by (rule frame') simp
  have lo: "\<And>l d d'. l \<in> set ls \<Longrightarrow> length d = N \<Longrightarrow> length d' = N \<Longrightarrow>
                  (\<And>k. k \<in> I l \<Longrightarrow> d ! k = d' ! k) \<Longrightarrow> k \<in> I l \<Longrightarrow> G l d ! k = G l d' ! k"
    by (rule local') simp_all
  have di: "\<And>l l'. l \<in> set ls \<Longrightarrow> l' \<in> set ls \<Longrightarrow> l \<noteq> l' \<Longrightarrow> I l \<inter> I l' = {}"
    by (rule disj') simp_all
  have dl: "distinct ls" and a: "a \<notin> set ls" using Cons.prems(4) by simp_all
  have Na: "length (G a d) = N" using Cons.prems(6) by (simp add: len)
  show ?case
  proof (cases "l = a")
    case True
    have "fold G ls (G a d) ! k = G a d ! k"
    proof (rule fold_lanes_other)
      fix l' d'
      assume l': "l' \<in> set ls"
      then have "l' \<noteq> a" using a by blast
      then have "I l' \<inter> I a = {}" using l' by (intro disj') simp_all
      then have "k \<notin> I l'" using k True by blast
      then show "G l' d' ! k = d' ! k" using l' by (intro fr)
    qed
    then show ?thesis using True by simp
  next
    case False
    then have lin: "l \<in> set ls" using Cons.prems(5) by simp
    have "fold G ls (G a d) ! k = G l (G a d) ! k"
      using fr lo di dl lin Na by (rule Cons.IH)
    also have "\<dots> = G l d ! k"
    proof (rule lo [OF lin Na Cons.prems(6) _ k])
      fix k'
      assume "k' \<in> I l"
      moreover have "I l \<inter> I a = {}" using lin False by (intro disj') simp_all
      ultimately have "k' \<notin> I a" by blast
      then show "G a d ! k' = d ! k'" by (intro frame') simp_all
    qed
    finally show ?thesis by simp
  qed
qed

lemma length_fold_lanes:
  assumes "\<And>l d. length (G l d) = length d"
  shows "length (fold G ls d) = length d"
  by (induction ls arbitrary: d) (simp_all add: assms)

lemma fold_product:
  "fold (\<lambda>x. fold (f x) ys) xs = fold (\<lambda>(x, y). f x y) (List.product xs ys)"
  by (induction xs) (simp_all add: fold_map comp_def)

lemma fold3_update_nth:
  assumes inj: "\<And>b r c b' r' c'. r \<in> set rs \<Longrightarrow> c \<in> set cs \<Longrightarrow> r' \<in> set rs \<Longrightarrow> c' \<in> set cs \<Longrightarrow>
                  ix b r c = ix b' r' c' \<Longrightarrow> b = b' \<and> r = r' \<and> c = c'"
    and mem: "b \<in> set bs" "r \<in> set rs" "c \<in> set cs"
    and len: "ix b r c < length xs"
  shows "fold (\<lambda>b. fold (\<lambda>r. fold (\<lambda>c xs. xs[ix b r c := v b r c]) cs) rs) bs xs ! ix b r c
         = v b r c"
proof -
  let ?ts = "List.product (List.product bs rs) cs"
  let ?ix = "\<lambda>t. case t of ((b, r), c) \<Rightarrow> ix b r c"
  let ?v = "\<lambda>t. case t of ((b, r), c) \<Rightarrow> v b r c"
  have "fold (\<lambda>b. fold (\<lambda>r. fold (\<lambda>c xs. xs[ix b r c := v b r c]) cs) rs) bs
        = fold (\<lambda>(b, r). fold (\<lambda>c xs. xs[ix b r c := v b r c]) cs) (List.product bs rs)"
    by (rule fold_product)
  also have "\<dots> = fold (\<lambda>p. fold (\<lambda>c xs. xs[?ix (p, c) := ?v (p, c)]) cs) (List.product bs rs)"
    by (rule arg_cong [where f = "\<lambda>f. fold f (List.product bs rs)"]) (auto simp: fun_eq_iff)
  also have "\<dots> = fold (\<lambda>(p, c). \<lambda>xs. xs[?ix (p, c) := ?v (p, c)]) ?ts"
    by (rule fold_product)
  also have "\<dots> = fold (\<lambda>t xs. if False then xs else xs[?ix t := ?v t]) ?ts"
    by (rule arg_cong [where f = "\<lambda>f. fold f ?ts"]) (auto simp: fun_eq_iff)
  finally have eq: "fold (\<lambda>b. fold (\<lambda>r. fold (\<lambda>c xs. xs[ix b r c := v b r c]) cs) rs) bs
        = fold (\<lambda>t xs. if False then xs else xs[?ix t := ?v t]) ?ts" .
  have injt: "inj_on ?ix (set ?ts)"
  proof (rule inj_onI)
    fix x y
    assume x: "x \<in> set ?ts" and y: "y \<in> set ?ts" and e: "?ix x = ?ix y"
    obtain b1 r1 c1 where x': "x = ((b1, r1), c1)" by (metis surj_pair)
    obtain b2 r2 c2 where y': "y = ((b2, r2), c2)" by (metis surj_pair)
    have "b1 = b2 \<and> r1 = r2 \<and> c1 = c2"
      by (rule inj [of r1 c1 r2 c2]) (use x y e x' y' in simp_all)
    then show "x = y" using x' y' by simp
  qed
  have memt: "((b, r), c) \<in> set ?ts" using mem by simp
  have "fold (\<lambda>t xs. if False then xs else xs[?ix t := ?v t]) ?ts xs ! ?ix ((b, r), c)
        = (if False then xs ! ?ix ((b, r), c) else ?v ((b, r), c))"
    by (rule fold_update_nth [OF injt memt]) (use len in simp)
  then show ?thesis unfolding eq by simp
qed

lemma length_fold3_update:
  "length (fold (\<lambda>b. fold (\<lambda>r. fold (\<lambda>c xs. xs[ix b r c := v b r c]) cs) rs) bs xs) = length xs"
proof -
  have c: "length (fold (\<lambda>c xs. xs[ix b r c := v b r c]) cs xs) = length xs" for b r xs
    by (induction cs arbitrary: xs) simp_all
  have r: "length (fold (\<lambda>r. fold (\<lambda>c xs. xs[ix b r c := v b r c]) cs) rs xs) = length xs" for b xs
    by (induction rs arbitrary: xs) (simp_all add: c)
  show ?thesis
    by (induction bs arbitrary: xs) (simp_all add: r)
qed

lemma lane_pass_nth:
  fixes ix :: "'a \<Rightarrow> 'b \<Rightarrow> nat \<Rightarrow> nat"
  assumes inj: "\<And>x y z x' y' z'. z < n \<Longrightarrow> z' < n \<Longrightarrow> y \<in> set ys \<Longrightarrow> y' \<in> set ys \<Longrightarrow>
                  x \<in> set xs \<Longrightarrow> x' \<in> set xs \<Longrightarrow>
                  ix x y z = ix x' y' z' \<Longrightarrow> x = x' \<and> y = y' \<and> z = z'"
    and bound: "\<And>x y z. x \<in> set xs \<Longrightarrow> y \<in> set ys \<Longrightarrow> z < n \<Longrightarrow> ix x y z < length dest"
    and dist: "distinct xs" "distinct ys"
    and mem: "x \<in> set xs" "y \<in> set ys" "z < n"
  shows "fold (\<lambda>x. fold (\<lambda>y dest.
           let array = map (\<lambda>z. dest ! ix x y z) [0..<n]
           in fold (\<lambda>z dest. if p x y z then dest else dest[ix x y z := w array z])
                [0..<n] dest) ys) xs dest ! ix x y z
         = (if p x y z then dest ! ix x y z
            else w (map (\<lambda>z. dest ! ix x y z) [0..<n]) z)"
proof -
  define G where "G = (\<lambda>(x, y) dest.
           let array = map (\<lambda>z. dest ! ix x y z) [0..<n]
           in fold (\<lambda>z dest. if p x y z then dest else dest[ix x y z := w array z])
                [0..<n] dest)"
  define I where "I = (\<lambda>(x, y). (\<lambda>z. ix x y z) ` {..<n})"
  let ?ls = "List.product xs ys"
  have eq: "fold (\<lambda>x. fold (\<lambda>y dest.
           let array = map (\<lambda>z. dest ! ix x y z) [0..<n]
           in fold (\<lambda>z dest. if p x y z then dest else dest[ix x y z := w array z])
                [0..<n] dest) ys) xs = fold G ?ls"
    unfolding G_def by (rule fold_product)
  have injz: "inj_on (ix x y) (set [0..<n])" if "x \<in> set xs" "y \<in> set ys" for x y
    by (rule inj_onI) (use inj [of _ _ y y x x] that in auto)
  have Gnth: "G (x, y) d ! ix x y z =
          (if p x y z then d ! ix x y z else w (map (\<lambda>z. d ! ix x y z) [0..<n]) z)"
    if "x \<in> set xs" "y \<in> set ys" "z < n" "ix x y z < length d" for x y z d
    unfolding G_def prod.case Let_def
    by (rule fold_update_nth [OF injz]) (use that in simp_all)
  have len: "length (G l d) = length d" for l d
    by (cases l) (simp add: G_def Let_def length_fold_update)
  have frame: "G l d ! k = d ! k" if "k \<notin> I l" for l d k
  proof (cases l)
    case (Pair x y)
    have "\<forall>z\<in>set [0..<n]. ix x y z \<noteq> k" using that Pair by (auto simp: I_def)
    then show ?thesis
      unfolding Pair G_def prod.case Let_def by (rule fold_update_other)
  qed
  have "fold G ?ls dest ! ix x y z = G (x, y) dest ! ix x y z"
  proof (rule fold_lanes [where I = I and N = "length dest"])
    show "length (G l d) = length d" for l d by (rule len)
    show "G l d ! k = d ! k" if "k \<notin> I l" for l d k using that by (rule frame)
    show "distinct ?ls" using dist by (rule distinct_product)
    show "(x, y) \<in> set ?ls" using mem by simp
    show "ix x y z \<in> I (x, y)" using mem by (simp add: I_def)
    show "length dest = length dest" by (rule refl)
    show "I l \<inter> I l' = {}" if "l \<in> set ?ls" "l' \<in> set ?ls" "l \<noteq> l'" for l l'
    proof (cases l, cases l')
      fix x1 y1 x2 y2
      assume l: "l = (x1, y1)" and l': "l' = (x2, y2)"
      have y: "y1 \<in> set ys" "y2 \<in> set ys" "x1 \<in> set xs" "x2 \<in> set xs"
        using that l l' by simp_all
      show ?thesis
      proof (rule ccontr)
        assume "I l \<inter> I l' \<noteq> {}"
        then obtain z1 z2 where "z1 < n" "z2 < n" "ix x1 y1 z1 = ix x2 y2 z2"
          unfolding l l' I_def by auto
        then have "x1 = x2 \<and> y1 = y2" using inj [of z1 z2 y1 y2 x1 x2] y by simp
        then show False using that(3) l l' by simp
      qed
    qed
    show "G l d ! ix x y z = G l d' ! ix x y z"
      if "l \<in> set ?ls" "length d = length dest" "length d' = length dest"
        and agree: "\<And>k. k \<in> I l \<Longrightarrow> d ! k = d' ! k" and kin: "ix x y z \<in> I l" for l d d'
    proof (cases l)
      case (Pair x1 y1)
      have m1: "x1 \<in> set xs" "y1 \<in> set ys" using that(1) Pair by simp_all
      obtain z1 where z1: "z1 < n" "ix x y z = ix x1 y1 z1"
        using kin unfolding Pair I_def by auto
      have ag: "d ! ix x1 y1 z' = d' ! ix x1 y1 z'" if "z' < n" for z'
        using agree [of "ix x1 y1 z'"] that by (simp add: Pair I_def)
      have arr: "map (\<lambda>z. d ! ix x1 y1 z) [0..<n] = map (\<lambda>z. d' ! ix x1 y1 z) [0..<n]"
        by (rule map_cong) (simp_all add: ag)
      have b: "ix x1 y1 z1 < length d" "ix x1 y1 z1 < length d'"
        using bound [OF m1 z1(1)] that(2,3) by simp_all
      show ?thesis
        unfolding Pair z1(2)
        by (simp add: Gnth [OF m1 z1(1)] b arr ag [OF z1(1)])
    qed
  qed
  also have "\<dots> = (if p x y z then dest ! ix x y z
            else w (map (\<lambda>z. dest ! ix x y z) [0..<n]) z)"
    by (rule Gnth) (use mem bound in simp_all)
  finally show ?thesis unfolding eq .
qed

lemma length_lane_pass:
  "length (fold (\<lambda>x. fold (\<lambda>y dest.
           let array = map (\<lambda>z. dest ! ix x y z) [0..<n]
           in fold (\<lambda>z dest. if p x y z then dest else dest[ix x y z := w array z])
                [0..<n] dest) ys) xs dest) = length dest"
proof -
  have inner: "length (fold (\<lambda>y dest.
           let array = map (\<lambda>z. dest ! ix x y z) [0..<n]
           in fold (\<lambda>z dest. if p x y z then dest else dest[ix x y z := w array z])
                [0..<n] dest) ys d) = length d" for x d
    by (rule length_fold_lanes) (simp add: Let_def length_fold_update)
  show ?thesis
    by (rule length_fold_lanes) (rule inner)
qed

lemma list_ex_upt: "c < nc \<Longrightarrow> P c \<Longrightarrow> list_ex P [0..<nc]"
  by (auto simp: list_ex_iff)

section \<open>Rounding to a float\<close>

lemma round_significand_small: "x < 2 ^ p \<Longrightarrow> round_significand p x = x"
  by (simp add: round_significand_def)

lemma to_VFloat_small: "0 \<le> x \<Longrightarrow> x < 2 ^ 24 \<Longrightarrow> to_VFloat x = x"
  by (simp add: to_VFloat_def round_significand_small)

lemma rne_of_int: "rne (real_of_int n) = n"
  by (simp add: rne_def)



lemma float_round_0: "float_round p 0 = 0"
  by (simp add: float_round_def)

lemma float_round_pos:
  assumes "0 < x"
  shows "float_round p x =
    real_of_int (rne (x / 2 powr real_of_int (\<lfloor>log 2 x\<rfloor> - int p + 1)))
      * 2 powr real_of_int (\<lfloor>log 2 x\<rfloor> - int p + 1)"
  using assms by (simp add: float_round_def Let_def)





lemma float_round_of_int:
  assumes "0 < k" "k < 2 ^ p"
  shows "float_round p (real_of_int k) = real_of_int k"
proof -
  define l where "l = \<lfloor>log 2 (real_of_int k)\<rfloor>"
  define n where "n = nat (int p - 1 - l)"
  have k: "0 < real_of_int k" using assms(1) by simp
  have "log 2 (real_of_int k) < log 2 (2 ^ p)"
    using assms k by (subst log_less_cancel_iff) (simp_all add: of_int_less_numeral_power_cancel_iff)
  then have "log 2 (real_of_int k) < real p" by simp
  then have "l < int p" unfolding l_def by linarith
  then have e: "l - int p + 1 = - int n" by (simp add: n_def)
  have S: "2 powr real_of_int (l - int p + 1) = 1 / 2 ^ n"
    unfolding e by (simp add: powr_minus powr_realpow divide_inverse)
  have "real_of_int k / (1 / 2 ^ n) = real_of_int (k * 2 ^ n)" by simp
  then have "rne (real_of_int k / (1 / 2 ^ n)) = k * 2 ^ n"
    by (simp only: rne_of_int)
  then show ?thesis
    unfolding float_round_pos [OF k] l_def [symmetric] S by simp
qed

lemma final_float_square:
  assumes "0 \<le> k" "k < 2 ^ 24"
  shows "final_float (k\<^sup>2) = real_of_int k"
proof (cases "k = 0")
  case True
  then show ?thesis by (simp add: final_float_def float_round_0)
next
  case False
  then have k: "0 < k" using assms(1) by simp
  have s: "sqrt (real_of_int (k\<^sup>2)) = real_of_int k" using assms(1) by simp
  have "k < 2 ^ 53" using assms(2) by (rule less_trans) simp
  then have "float_round 53 (real_of_int k) = real_of_int k"
    using k by (intro float_round_of_int)
  moreover have "float_round 24 (real_of_int k) = real_of_int k"
    using k assms(2) by (intro float_round_of_int)
  ultimately show ?thesis unfolding final_float_def s by simp
qed

lemma final_float_0: "final_float 0 = 0"
  using final_float_square [of 0] by simp

lemma final_float_1: "final_float 1 = 1"
  using final_float_square [of 1] by simp

lemma final_float_4: "final_float 4 = 2"
  using final_float_square [of 2] by simp

lemma final_float_9: "final_float 9 = 3"
  using final_float_square [of 3] by simp





text \<open>The conversion of an integer is the rounding of the real numbers to 24 bits.\<close>

lemma to_VFloat_float_round:
  assumes "0 \<le> x"
  shows "real_of_int (to_VFloat x) = float_round 24 (real_of_int x)"
proof (cases "x < 2 ^ 24")
  case True
  show ?thesis
  proof (cases "x = 0")
    case True
    then show ?thesis by (simp add: to_VFloat_def round_significand_def float_round_0)
  next
    case False
    then have "0 < x" using assms by simp
    then show ?thesis
      using True assms by (simp add: to_VFloat_small float_round_of_int)
  qed
next
  case False
  then have x: "0 < x" by (smt (verit) zero_less_power)
  define e where "e = nat (bitlen x - int 24)"
  define q where "q = x div 2 ^ e"
  define r where "r = x mod 2 ^ e"
  have big: "2 ^ 24 \<le> x" using False by simp
  have bl: "bitlen x = \<lfloor>log 2 (real_of_int x)\<rfloor> + 1"
    using x by (simp add: bitlen_alt_def)
  have "24 \<le> log 2 (real_of_int x)"
    using x big by (simp add: le_log_iff)
  then have "24 \<le> \<lfloor>log 2 (real_of_int x)\<rfloor>" by linarith
  then have ee: "\<lfloor>log 2 (real_of_int x)\<rfloor> - int 24 + 1 = int e"
    by (simp add: e_def bl)
  have S: "2 powr real_of_int (int e) = 2 ^ e"
    by (simp add: powr_realpow)
  have xs: "x = q * 2 ^ e + r" unfolding q_def r_def by (rule div_mult_mod_eq [symmetric])
  have r: "0 \<le> r" "r < 2 ^ e" by (simp_all add: r_def)
  have fl: "\<lfloor>real_of_int x / 2 ^ e\<rfloor> = q"
  proof -
    have "real_of_int x / 2 ^ e = real_of_int x / real_of_int (2 ^ e)" by simp
    then show ?thesis unfolding q_def by (simp only: floor_divide_of_int_eq)
  qed
  have fr: "real_of_int x / 2 ^ e - real_of_int q = real_of_int r / 2 ^ e"
    by (simp add: xs field_simps)
  have lt: "real_of_int r / 2 ^ e < 1 / 2 \<longleftrightarrow> 2 * r < 2 ^ e"
  proof -
    have "real_of_int r / 2 ^ e < 1 / 2 \<longleftrightarrow> real_of_int (2 * r) < real_of_int (2 ^ e)"
      by (simp add: field_simps)
    then show ?thesis by (simp only: of_int_less_iff)
  qed
  have gt: "1 / 2 < real_of_int r / 2 ^ e \<longleftrightarrow> 2 ^ e < 2 * r"
  proof -
    have "1 / 2 < real_of_int r / 2 ^ e \<longleftrightarrow> real_of_int (2 ^ e) < real_of_int (2 * r)"
      by (simp add: field_simps)
    then show ?thesis by (simp only: of_int_less_iff)
  qed
  have rn: "rne (real_of_int x / 2 ^ e)
      = (if 2 * r < 2 ^ e \<or> (2 * r = 2 ^ e \<and> even q) then q else q + 1)"
    unfolding rne_def fl fr lt gt by auto
  have a: "to_VFloat x = (if 2 * r < 2 ^ e \<or> (2 * r = 2 ^ e \<and> even q) then q * 2 ^ e
              else (q + 1) * 2 ^ e)"
    using assms False
    by (simp add: to_VFloat_def round_significand_def Let_def e_def q_def r_def)
  have b: "float_round 24 (real_of_int x) = real_of_int (rne (real_of_int x / 2 ^ e)) * 2 ^ e"
  proof -
    have "0 < real_of_int x" using x by simp
    show ?thesis unfolding float_round_pos [OF \<open>0 < real_of_int x\<close>] ee S
      by (rule refl)
  qed
  show ?thesis unfolding a b rn by simp
qed

text \<open>A value that has been rounded to a \<open>VFloat\<close> is kept by the conversion.\<close>

lemma bitlen_eq:
  assumes "2 ^ n \<le> x" "x < 2 ^ Suc n"
  shows "bitlen x = int n + 1"
proof (rule antisym)
  show "bitlen x \<le> int n + 1"
    using assms(2) by (simp add: bitlen_le_iff_power nat_add_distrib)
  show "int n + 1 \<le> bitlen x"
    using assms(1) by (simp add: bitlen_ge_iff_power nat_add_distrib)
qed

lemma round_significand_scaled:
  assumes "2 ^ 23 \<le> q" "q \<le> 2 ^ 24"
  shows "round_significand 24 (q * 2 ^ e) = q * 2 ^ e"
proof (cases "q * 2 ^ e < 2 ^ 24")
  case True
  then show ?thesis by (simp add: round_significand_def)
next
  case False
  have q0: "0 < q" using assms(1) by (smt (verit) zero_less_power)
  show ?thesis
  proof (cases "q = 2 ^ 24")
    case True
    have "bitlen ((2::int) ^ 24) = 25" using bitlen_eq [of 24 "2 ^ 24"] by simp
    then have b: "bitlen (q * 2 ^ e) = 25 + int e"
      unfolding True using bitlen_pow2 [of "2 ^ 24" e] by simp
    have x: "q * 2 ^ e = 2 ^ 23 * 2 ^ Suc e" unfolding True by simp
    have e: "nat (bitlen (q * 2 ^ e) - int 24) = Suc e" unfolding b by simp
    have d: "q * 2 ^ e div 2 ^ Suc e = 2 ^ 23" unfolding x by simp
    have m: "q * 2 ^ e mod 2 ^ Suc e = 0" unfolding x by simp
    show ?thesis
      using False unfolding round_significand_def Let_def e d m by (simp add: True)
  next
    case ne: False
    then have "q < 2 ^ 24" using assms(2) by simp
    then have "bitlen q = 24" using bitlen_eq [of 23 q] assms(1) by simp
    then have b: "bitlen (q * 2 ^ e) = 24 + int e"
      using bitlen_pow2 [OF q0, of e] by simp
    have e: "nat (bitlen (q * 2 ^ e) - int 24) = e" unfolding b by simp
    show ?thesis
      using False unfolding round_significand_def Let_def e by simp
  qed
qed

lemma round_significand_form:
  assumes "2 ^ 24 \<le> x"
  shows "\<exists>q e. round_significand 24 x = q * 2 ^ e \<and> 2 ^ 23 \<le> q \<and> q \<le> 2 ^ 24"
proof -
  have x: "0 < x" using assms by (smt (verit) zero_less_power)
  define e where "e = nat (bitlen x - int 24)"
  define q where "q = x div 2 ^ e"
  define r where "r = x mod 2 ^ e"
  note bb = bitlen_bounds [OF x]
  have "24 < bitlen x"
  proof (rule ccontr)
    assume "\<not> 24 < bitlen x"
    then have "nat (bitlen x) \<le> 24" by simp
    then have "(2::int) ^ nat (bitlen x) \<le> 2 ^ 24" by (intro power_increasing) simp_all
    then show False using bb assms by linarith
  qed
  then have n1: "nat (bitlen x - 1) = 23 + e" and n2: "nat (bitlen x) = 24 + e"
    by (simp_all add: e_def)
  have lo: "2 ^ 23 * 2 ^ e \<le> x" using bb [THEN conjunct1] unfolding n1 power_add .
  have hi: "x < 2 ^ 24 * 2 ^ e" using bb [THEN conjunct2] unfolding n2 power_add .
  have xs: "x = q * 2 ^ e + r" unfolding q_def r_def by (rule div_mult_mod_eq [symmetric])
  have r: "0 \<le> r" "r < 2 ^ e" by (simp_all add: r_def)
  have p: "(0::int) < 2 ^ e" by simp
  have q1: "q < 2 ^ 24"
  proof (rule ccontr)
    assume "\<not> q < 2 ^ 24"
    then have "2 ^ 24 * 2 ^ e \<le> q * 2 ^ e" using p by (intro mult_right_mono) simp_all
    then show False using hi xs r(1) by linarith
  qed
  have q2: "2 ^ 23 \<le> q"
  proof (rule ccontr)
    assume "\<not> 2 ^ 23 \<le> q"
    then have "q + 1 \<le> 2 ^ 23" by simp
    then have "(q + 1) * 2 ^ e \<le> 2 ^ 23 * 2 ^ e" using p by (intro mult_right_mono) simp_all
    moreover have "x < (q + 1) * 2 ^ e" using xs r(2) by (simp add: algebra_simps)
    ultimately show False using lo by linarith
  qed
  have "round_significand 24 x = q * 2 ^ e \<or> round_significand 24 x = (q + 1) * 2 ^ e"
    using assms by (simp add: round_significand_def Let_def e_def q_def)
  then show ?thesis
  proof
    assume "round_significand 24 x = q * 2 ^ e"
    then show ?thesis using q1 q2 by (intro exI [of _ q] exI [of _ e]) simp
  next
    assume "round_significand 24 x = (q + 1) * 2 ^ e"
    then show ?thesis using q1 q2 by (intro exI [of _ "q + 1"] exI [of _ e]) simp
  qed
qed

lemma to_VFloat_idem:
  assumes "0 \<le> x"
  shows "to_VFloat (to_VFloat x) = to_VFloat x"
proof (cases "x < 2 ^ 24")
  case True
  then show ?thesis using assms by (simp add: to_VFloat_small)
next
  case False
  then obtain q e where qe: "round_significand 24 x = q * 2 ^ e" "2 ^ 23 \<le> q" "q \<le> 2 ^ 24"
    using round_significand_form [of x] by auto
  have "0 \<le> q" using qe(2) by (smt (verit) zero_less_power)
  then have "0 \<le> q * 2 ^ e" by simp
  then show ?thesis
    using assms round_significand_scaled [OF qe(2,3), of e] by (simp add: to_VFloat_def qe(1))
qed

lemma to_VFloat_nonneg: "0 \<le> x \<Longrightarrow> 0 \<le> to_VFloat x"
proof (cases "x < 2 ^ 24")
  case True
  assume "0 \<le> x"
  then show ?thesis using True by (simp add: to_VFloat_small)
next
  case False
  assume a: "0 \<le> x"
  obtain q e where qe: "round_significand 24 x = q * 2 ^ e" "2 ^ 23 \<le> q" "q \<le> 2 ^ 24"
    using False round_significand_form [of x] by auto
  have "0 \<le> q" using qe(2) by (smt (verit) zero_less_power)
  then have "0 \<le> q * 2 ^ e" by simp
  then show ?thesis using a by (simp add: to_VFloat_def qe(1))
qed

section \<open>What each pass writes at a voxel\<close>

lemma first_pass_float_eq:
  "first_pass_float nb nr nc src =
     fold (\<lambda>b. fold (\<lambda>r. fold (\<lambda>c dest. dest[VPixelIndex nr nc b r c :=
       (if src ! VPixelIndex nr nc b r c then 0
        else to_VFloat
          ((min (forward_steps nr nc src b r c) (backward_steps_float nr nc src b r c))\<^sup>2))])
       [0..<nc]) [0..<nr]) [0..<nb]"
proof -
  have body: "(\<lambda>c dest.
       if src ! VPixelIndex nr nc b r c
       then dest[VPixelIndex nr nc b r c := 0]
       else
         let d1 = forward_steps nr nc src b r c;
             d2 = backward_steps_float nr nc src b r c;
             d = (if d1 \<le> d2 then d1 else d2)
         in dest[VPixelIndex nr nc b r c := to_VFloat (d * d)])
     = (\<lambda>c dest. dest[VPixelIndex nr nc b r c :=
       (if src ! VPixelIndex nr nc b r c then 0
        else to_VFloat
          ((min (forward_steps nr nc src b r c) (backward_steps_float nr nc src b r c))\<^sup>2))])"
    for b r
    by (intro ext) (simp add: Let_def min_def power2_eq_square)
  show ?thesis
    unfolding first_pass_float_def body by (rule refl)
qed

lemma first_pass_float_nth:
  assumes "b < nb" "r < nr" "c < nc" "length dest = nb * nr * nc"
  shows "first_pass_float nb nr nc src dest ! VPixelIndex nr nc b r c =
           (if src ! VPixelIndex nr nc b r c then 0
            else to_VFloat
              ((min (forward_steps nr nc src b r c) (backward_steps_float nr nc src b r c))\<^sup>2))"
  unfolding first_pass_float_eq
proof (rule fold3_update_nth)
  fix b r c b' r' c'
  assume "r \<in> set [0..<nr]" "c \<in> set [0..<nc]" "r' \<in> set [0..<nr]" "c' \<in> set [0..<nc]"
    and "VPixelIndex nr nc b r c = VPixelIndex nr nc b' r' c'"
  then show "b = b' \<and> r = r' \<and> c = c'"
    by (intro VPixelIndex_inj [of nr nc]) simp_all
next
  show "VPixelIndex nr nc b r c < length dest"
    using VPixelIndex_less [of b nb r nr c nc] assms by simp
qed (use assms in simp_all)

text \<open>The values that the first pass of the float engine writes are values of a \<open>VFloat\<close>.\<close>

lemma first_pass_float_representable:
  assumes "b < nb" "r < nr" "c < nc" "length dest = nb * nr * nc"
  shows "0 \<le> first_pass_float nb nr nc src dest ! VPixelIndex nr nc b r c
       \<and> to_VFloat (first_pass_float nb nr nc src dest ! VPixelIndex nr nc b r c)
           = first_pass_float nb nr nc src dest ! VPixelIndex nr nc b r c"
proof (cases "src ! VPixelIndex nr nc b r c")
  case True
  then show ?thesis
    by (simp add: first_pass_float_nth [OF assms] to_VFloat_small)
next
  case False
  let ?d = "min (forward_steps nr nc src b r c) (backward_steps_float nr nc src b r c)"
  have "0 \<le> ?d\<^sup>2" by simp
  then have "0 \<le> to_VFloat (?d\<^sup>2)" "to_VFloat (to_VFloat (?d\<^sup>2)) = to_VFloat (?d\<^sup>2)"
    by (rule to_VFloat_nonneg, rule to_VFloat_idem)
  then show ?thesis
    using False by (simp add: first_pass_float_nth [OF assms])
qed

lemma length_first_pass_float:
  "length (first_pass_float nb nr nc src dest) = length dest"
  unfolding first_pass_float_eq by (rule length_fold3_update)

lemma first_pass_short_eq:
  "first_pass_short nb nr nc src =
     fold (\<lambda>b. fold (\<lambda>r. fold (\<lambda>c dest. dest[VPixelIndex nr nc b r c :=
       (if list_ex (\<lambda>c. src ! VPixelIndex nr nc b r c) [0..<nc]
        then (if src ! VPixelIndex nr nc b r c then 0
              else to_VShort ((min (forward_steps nr nc src b r c)
                                   (backward_steps_short nr nc src b r c))\<^sup>2))
        else double_to_VShort (int nr * int nr div 2))])
       [0..<nc]) [0..<nr]) [0..<nb]"
proof -
  have body: "(\<lambda>r dest.
       if list_ex (\<lambda>c. src ! VPixelIndex nr nc b r c) [0..<nc]
       then
         fold (\<lambda>c dest.
           if src ! VPixelIndex nr nc b r c
           then dest[VPixelIndex nr nc b r c := 0]
           else
             let d1 = forward_steps nr nc src b r c;
                 d2 = backward_steps_short nr nc src b r c;
                 d = (if d1 < d2 then d1 else d2)
             in dest[VPixelIndex nr nc b r c := to_VShort (d * d)])
           [0..<nc] dest
       else
         fold (\<lambda>c dest.
           dest[VPixelIndex nr nc b r c :=
                  double_to_VShort (int nr * int nr div 2)])
           [0..<nc] dest)
     = (\<lambda>r. fold (\<lambda>c dest. dest[VPixelIndex nr nc b r c :=
       (if list_ex (\<lambda>c. src ! VPixelIndex nr nc b r c) [0..<nc]
        then (if src ! VPixelIndex nr nc b r c then 0
              else to_VShort ((min (forward_steps nr nc src b r c)
                                   (backward_steps_short nr nc src b r c))\<^sup>2))
        else double_to_VShort (int nr * int nr div 2))])
       [0..<nc])"
    for b
  proof (intro ext)
    fix r dest
    have m: "(if d1 < d2 then d1 else d2) = min d1 d2" for d1 d2 :: int
      by (simp add: min_def)
    show "(if list_ex (\<lambda>c. src ! VPixelIndex nr nc b r c) [0..<nc]
       then
         fold (\<lambda>c dest.
           if src ! VPixelIndex nr nc b r c
           then dest[VPixelIndex nr nc b r c := 0]
           else
             let d1 = forward_steps nr nc src b r c;
                 d2 = backward_steps_short nr nc src b r c;
                 d = (if d1 < d2 then d1 else d2)
             in dest[VPixelIndex nr nc b r c := to_VShort (d * d)])
           [0..<nc] dest
       else
         fold (\<lambda>c dest.
           dest[VPixelIndex nr nc b r c :=
                  double_to_VShort (int nr * int nr div 2)])
           [0..<nc] dest)
     = fold (\<lambda>c dest. dest[VPixelIndex nr nc b r c :=
       (if list_ex (\<lambda>c. src ! VPixelIndex nr nc b r c) [0..<nc]
        then (if src ! VPixelIndex nr nc b r c then 0
              else to_VShort ((min (forward_steps nr nc src b r c)
                                   (backward_steps_short nr nc src b r c))\<^sup>2))
        else double_to_VShort (int nr * int nr div 2))])
       [0..<nc] dest"
    proof (cases "list_ex (\<lambda>c. src ! VPixelIndex nr nc b r c) [0..<nc]")
      case True
      have "(\<lambda>c dest.
           if src ! VPixelIndex nr nc b r c
           then dest[VPixelIndex nr nc b r c := 0]
           else
             let d1 = forward_steps nr nc src b r c;
                 d2 = backward_steps_short nr nc src b r c;
                 d = (if d1 < d2 then d1 else d2)
             in dest[VPixelIndex nr nc b r c := to_VShort (d * d)])
         = (\<lambda>c dest. dest[VPixelIndex nr nc b r c :=
              (if src ! VPixelIndex nr nc b r c then 0
               else to_VShort ((min (forward_steps nr nc src b r c)
                                   (backward_steps_short nr nc src b r c))\<^sup>2))])"
        by (intro ext) (simp add: Let_def m power2_eq_square)
      then show ?thesis using True by simp
    next
      case False
      then show ?thesis by simp
    qed
  qed
  show ?thesis
    unfolding first_pass_short_def body by (rule refl)
qed

lemma first_pass_short_nth:
  assumes "b < nb" "r < nr" "c < nc" "length dest = nb * nr * nc"
  shows "first_pass_short nb nr nc src dest ! VPixelIndex nr nc b r c =
       (if list_ex (\<lambda>c. src ! VPixelIndex nr nc b r c) [0..<nc]
        then (if src ! VPixelIndex nr nc b r c then 0
              else to_VShort ((min (forward_steps nr nc src b r c)
                                   (backward_steps_short nr nc src b r c))\<^sup>2))
        else double_to_VShort (int nr * int nr div 2))"
  unfolding first_pass_short_eq
proof (rule fold3_update_nth)
  fix b r c b' r' c'
  assume "r \<in> set [0..<nr]" "c \<in> set [0..<nc]" "r' \<in> set [0..<nr]" "c' \<in> set [0..<nc]"
    and "VPixelIndex nr nc b r c = VPixelIndex nr nc b' r' c'"
  then show "b = b' \<and> r = r' \<and> c = c'"
    by (intro VPixelIndex_inj [of nr nc]) simp_all
next
  show "VPixelIndex nr nc b r c < length dest"
    using VPixelIndex_less [of b nb r nr c nc] assms by simp
qed (use assms in simp_all)

lemma length_first_pass_short:
  "length (first_pass_short nb nr nc src dest) = length dest"
  unfolding first_pass_short_eq by (rule length_fold3_update)

lemma second_pass_nth:
  assumes "b < nb" "r < nr" "c < nc" "length dest = nb * nr * nc"
  shows "second_pass dmax nb nr nc src dest ! VPixelIndex nr nc b r c =
       (if src ! VPixelIndex nr nc b r c then dest ! VPixelIndex nr nc b r c
        else row_window_min dmax (map (\<lambda>r. dest ! VPixelIndex nr nc b r c) [0..<nr]) nr r)"
  unfolding second_pass_def
proof (rule lane_pass_nth [where ix = "\<lambda>b c r. VPixelIndex nr nc b r c"
      and p = "\<lambda>b c r. src ! VPixelIndex nr nc b r c"
      and w = "\<lambda>array r. row_window_min dmax array nr r"])
  fix x y z x' y' z'
  assume "z < nr" "z' < nr" "y \<in> set [0..<nc]" "y' \<in> set [0..<nc]"
    and "x \<in> set [0..<nb]" "x' \<in> set [0..<nb]"
    and "VPixelIndex nr nc x z y = VPixelIndex nr nc x' z' y'"
  then have "x = x' \<and> z = z' \<and> y = y'"
    by (intro VPixelIndex_inj [of nr nc]) simp_all
  then show "x = x' \<and> y = y' \<and> z = z'" by simp
next
  fix x y z
  assume "x \<in> set [0..<nb]" "y \<in> set [0..<nc]" "z < nr"
  then show "VPixelIndex nr nc x z y < length dest"
    using VPixelIndex_less [of x nb z nr y nc] assms(4) by simp
qed (use assms in simp_all)

lemma third_pass_nth:
  assumes "b < nb" "r < nr" "c < nc" "length dest = nb * nr * nc"
  shows "third_pass dmax nb nr nc src dest ! VPixelIndex nr nc b r c =
       (if src ! VPixelIndex nr nc b r c then dest ! VPixelIndex nr nc b r c
        else band_window_min dmax (map (\<lambda>b. dest ! VPixelIndex nr nc b r c) [0..<nb]) nb b)"
  unfolding third_pass_def
proof (rule lane_pass_nth [where ix = "\<lambda>r c b. VPixelIndex nr nc b r c"
      and p = "\<lambda>r c b. src ! VPixelIndex nr nc b r c"
      and w = "\<lambda>array b. band_window_min dmax array nb b"])
  fix x y z x' y' z'
  assume "z < nb" "z' < nb" "y \<in> set [0..<nc]" "y' \<in> set [0..<nc]"
    and "x \<in> set [0..<nr]" "x' \<in> set [0..<nr]"
    and "VPixelIndex nr nc z x y = VPixelIndex nr nc z' x' y'"
  then have "z = z' \<and> x = x' \<and> y = y'"
    by (intro VPixelIndex_inj [of nr nc]) simp_all
  then show "x = x' \<and> y = y' \<and> z = z'" by simp
next
  fix x y z
  assume "x \<in> set [0..<nr]" "y \<in> set [0..<nc]" "z < nb"
  then show "VPixelIndex nr nc z x y < length dest"
    using VPixelIndex_less [of z nb x nr y nc] assms(4) by simp
qed (use assms in simp_all)

lemma length_second_pass:
  "length (second_pass dmax nb nr nc src dest) = length dest"
  unfolding second_pass_def by (rule length_lane_pass)

lemma length_third_pass:
  "length (third_pass dmax nb nr nc src dest) = length dest"
  unfolding third_pass_def by (rule length_lane_pass)

lemma second_pass_float_nth:
  assumes "b < nb" "r < nr" "c < nc" "length dest = nb * nr * nc"
  shows "second_pass_float dmax nb nr nc src dest ! VPixelIndex nr nc b r c =
       (if src ! VPixelIndex nr nc b r c then dest ! VPixelIndex nr nc b r c
        else row_window_min_float dmax (map (\<lambda>r. dest ! VPixelIndex nr nc b r c) [0..<nr]) nr r)"
  unfolding second_pass_float_def
proof (rule lane_pass_nth [where ix = "\<lambda>b c r. VPixelIndex nr nc b r c"
      and p = "\<lambda>b c r. src ! VPixelIndex nr nc b r c"
      and w = "\<lambda>array r. row_window_min_float dmax array nr r"])
  fix x y z x' y' z'
  assume "z < nr" "z' < nr" "y \<in> set [0..<nc]" "y' \<in> set [0..<nc]"
    and "x \<in> set [0..<nb]" "x' \<in> set [0..<nb]"
    and "VPixelIndex nr nc x z y = VPixelIndex nr nc x' z' y'"
  then have "x = x' \<and> z = z' \<and> y = y'"
    by (intro VPixelIndex_inj [of nr nc]) simp_all
  then show "x = x' \<and> y = y' \<and> z = z'" by simp
next
  fix x y z
  assume "x \<in> set [0..<nb]" "y \<in> set [0..<nc]" "z < nr"
  then show "VPixelIndex nr nc x z y < length dest"
    using VPixelIndex_less [of x nb z nr y nc] assms(4) by simp
qed (use assms in simp_all)

lemma third_pass_float_nth:
  assumes "b < nb" "r < nr" "c < nc" "length dest = nb * nr * nc"
  shows "third_pass_float dmax nb nr nc src dest ! VPixelIndex nr nc b r c =
       (if src ! VPixelIndex nr nc b r c then dest ! VPixelIndex nr nc b r c
        else band_window_min_float dmax (map (\<lambda>b. dest ! VPixelIndex nr nc b r c) [0..<nb]) nb b)"
  unfolding third_pass_float_def
proof (rule lane_pass_nth [where ix = "\<lambda>r c b. VPixelIndex nr nc b r c"
      and p = "\<lambda>r c b. src ! VPixelIndex nr nc b r c"
      and w = "\<lambda>array b. band_window_min_float dmax array nb b"])
  fix x y z x' y' z'
  assume "z < nb" "z' < nb" "y \<in> set [0..<nc]" "y' \<in> set [0..<nc]"
    and "x \<in> set [0..<nr]" "x' \<in> set [0..<nr]"
    and "VPixelIndex nr nc z x y = VPixelIndex nr nc z' x' y'"
  then have "z = z' \<and> x = x' \<and> y = y'"
    by (intro VPixelIndex_inj [of nr nc]) simp_all
  then show "x = x' \<and> y = y' \<and> z = z'" by simp
next
  fix x y z
  assume "x \<in> set [0..<nr]" "y \<in> set [0..<nc]" "z < nb"
  then show "VPixelIndex nr nc z x y < length dest"
    using VPixelIndex_less [of z nb x nr y nc] assms(4) by simp
qed (use assms in simp_all)

lemma length_second_pass_float:
  "length (second_pass_float dmax nb nr nc src dest) = length dest"
  unfolding second_pass_float_def by (rule length_lane_pass)

lemma length_third_pass_float:
  "length (third_pass_float dmax nb nr nc src dest) = length dest"
  unfolding third_pass_float_def by (rule length_lane_pass)

section \<open>The scans of the first pass\<close>

lemma scan_forward_result:
  assumes "cc1 \<le> n"
  shows "cc1 \<le> scan_forward src n srcpix cc1 \<and> scan_forward src n srcpix cc1 \<le> n
       \<and> (\<forall>k. cc1 \<le> k \<and> k < scan_forward src n srcpix cc1 \<longrightarrow> \<not> src ! nat (srcpix + (k - cc1)))
       \<and> (scan_forward src n srcpix cc1 < n \<longrightarrow>
            src ! nat (srcpix + (scan_forward src n srcpix cc1 - cc1)))"
  using assms
proof (induction src n srcpix cc1 rule: scan_forward.induct)
  case (1 src n srcpix cc1)
  show ?case
  proof (cases "cc1 < n \<and> \<not> src ! nat srcpix")
    case True
    let ?r = "scan_forward src n (srcpix + 1) (cc1 + 1)"
    have eq: "scan_forward src n srcpix cc1 = ?r"
      using True by (subst scan_forward.simps) simp
    have ih: "cc1 + 1 \<le> ?r \<and> ?r \<le> n
       \<and> (\<forall>k. cc1 + 1 \<le> k \<and> k < ?r \<longrightarrow> \<not> src ! nat (srcpix + 1 + (k - (cc1 + 1))))
       \<and> (?r < n \<longrightarrow> src ! nat (srcpix + 1 + (?r - (cc1 + 1))))"
      using "1.IH" True by simp
    have a: "srcpix + 1 + (k - (cc1 + 1)) = srcpix + (k - cc1)" for k by simp
    have b: "\<not> src ! nat (srcpix + (k - cc1))" if "cc1 \<le> k" "k < ?r" for k
    proof (cases "k = cc1")
      case True
      then show ?thesis using \<open>cc1 < n \<and> \<not> src ! nat srcpix\<close> by simp
    next
      case False
      then have "cc1 + 1 \<le> k" using that(1) by simp
      then show ?thesis using ih that(2) a by metis
    qed
    have c: "?r < n \<longrightarrow> src ! nat (srcpix + (?r - cc1))" using ih a by metis
    have d: "cc1 \<le> ?r" "?r \<le> n" using ih by simp_all
    show ?thesis unfolding eq using b c d by blast
  next
    case False
    have eq: "scan_forward src n srcpix cc1 = cc1"
      by (subst scan_forward.simps) (simp only: False if_False)
    show ?thesis unfolding eq using False "1.prems" by auto
  qed
qed

lemma scan_backward_result:
  assumes "- 1 \<le> cc2"
  shows "- 1 \<le> scan_backward src srcpix cc2 \<and> scan_backward src srcpix cc2 \<le> cc2
       \<and> (\<forall>k. scan_backward src srcpix cc2 < k \<and> k \<le> cc2 \<longrightarrow> \<not> src ! nat (srcpix - (cc2 - k)))
       \<and> (0 \<le> scan_backward src srcpix cc2 \<longrightarrow>
            src ! nat (srcpix - (cc2 - scan_backward src srcpix cc2)))"
  using assms
proof (induction src srcpix cc2 rule: scan_backward.induct)
  case (1 src srcpix cc2)
  show ?case
  proof (cases "0 \<le> cc2 \<and> \<not> src ! nat srcpix")
    case True
    let ?r = "scan_backward src (srcpix - 1) (cc2 - 1)"
    have eq: "scan_backward src srcpix cc2 = ?r"
      using True by (subst scan_backward.simps) simp
    have ih: "- 1 \<le> ?r \<and> ?r \<le> cc2 - 1
       \<and> (\<forall>k. ?r < k \<and> k \<le> cc2 - 1 \<longrightarrow> \<not> src ! nat (srcpix - 1 - (cc2 - 1 - k)))
       \<and> (0 \<le> ?r \<longrightarrow> src ! nat (srcpix - 1 - (cc2 - 1 - ?r)))"
      using "1.IH" True by simp
    have a: "srcpix - 1 - (cc2 - 1 - k) = srcpix - (cc2 - k)" for k by simp
    have b: "\<not> src ! nat (srcpix - (cc2 - k))" if "?r < k" "k \<le> cc2" for k
    proof (cases "k = cc2")
      case True
      then show ?thesis using \<open>0 \<le> cc2 \<and> \<not> src ! nat srcpix\<close> by simp
    next
      case False
      then have "k \<le> cc2 - 1" using that(2) by simp
      then show ?thesis using ih that(1) a by metis
    qed
    have c: "0 \<le> ?r \<longrightarrow> src ! nat (srcpix - (cc2 - ?r))" using ih a by metis
    have d: "- 1 \<le> ?r" "?r \<le> cc2" using ih by simp_all
    show ?thesis unfolding eq using b c d by blast
  next
    case False
    have eq: "scan_backward src srcpix cc2 = cc2"
      by (subst scan_backward.simps) (simp only: False if_False)
    show ?thesis unfolding eq using False "1.prems" by auto
  qed
qed

lemma forward_scan_column:
  assumes "c \<le> nc"
  shows "\<exists>cc. scan_forward src (int nc) (int (VPixelIndex nr nc b r c)) (int c) = int cc
    \<and> c \<le> cc \<and> cc \<le> nc
    \<and> (\<forall>k. c \<le> k \<and> k < cc \<longrightarrow> \<not> src ! VPixelIndex nr nc b r k)
    \<and> (cc < nc \<longrightarrow> src ! VPixelIndex nr nc b r cc)"
proof -
  let ?p = "int (VPixelIndex nr nc b r c)"
  let ?s = "scan_forward src (int nc) ?p (int c)"
  have c: "int c \<le> int nc" using assms by simp
  note res = scan_forward_result [OF c, of src ?p]
  have s: "int c \<le> ?s" "?s \<le> int nc" using res by simp_all
  define cc where "cc = nat ?s"
  have cc: "?s = int cc" using s by (simp add: cc_def)
  have 1: "c \<le> cc" "cc \<le> nc" using s cc by simp_all
  have 2: "\<not> src ! VPixelIndex nr nc b r k" if "c \<le> k" "k < cc" for k
  proof -
    have "\<not> src ! nat (?p + (int k - int c))" using res that cc by simp
    then show ?thesis using that(1) by (simp add: VPixelIndex_shift)
  qed
  have 3: "src ! VPixelIndex nr nc b r cc" if "cc < nc"
  proof -
    have "src ! nat (?p + (int cc - int c))" using res that cc by simp
    then show ?thesis using 1(1) by (simp add: VPixelIndex_shift)
  qed
  show ?thesis using cc 1 2 3 by blast
qed

lemma forward_steps_found:
  assumes "c \<le> cc1" "cc1 < nc" "src ! VPixelIndex nr nc b r cc1"
    and "\<And>k. c \<le> k \<Longrightarrow> k < cc1 \<Longrightarrow> \<not> src ! VPixelIndex nr nc b r k"
  shows "forward_steps nr nc src b r c = int cc1 - int c"
proof -
  have "c \<le> nc" using assms(1,2) by simp
  then obtain cc where cc: "scan_forward src (int nc) (int (VPixelIndex nr nc b r c)) (int c) = int cc"
    "c \<le> cc" "cc \<le> nc"
    "\<And>k. c \<le> k \<Longrightarrow> k < cc \<Longrightarrow> \<not> src ! VPixelIndex nr nc b r k"
    "cc < nc \<Longrightarrow> src ! VPixelIndex nr nc b r cc"
    using forward_scan_column [of c nc src nr b r] by blast
  have "\<not> cc1 < cc" using cc(4) [of cc1] assms(1,3) by blast
  moreover have "\<not> cc < cc1" using assms(4) [of cc] cc(2,5) assms(2) by auto
  ultimately have "cc = cc1" by simp
  then show ?thesis using cc(1) assms(2) by (simp add: forward_steps_def)
qed

lemma forward_steps_none:
  assumes "c \<le> nc" and "\<And>k. c \<le> k \<Longrightarrow> k < nc \<Longrightarrow> \<not> src ! VPixelIndex nr nc b r k"
  shows "forward_steps nr nc src b r c = int nc"
proof -
  obtain cc where cc: "scan_forward src (int nc) (int (VPixelIndex nr nc b r c)) (int c) = int cc"
    "c \<le> cc" "cc \<le> nc"
    "\<And>k. c \<le> k \<Longrightarrow> k < cc \<Longrightarrow> \<not> src ! VPixelIndex nr nc b r k"
    "cc < nc \<Longrightarrow> src ! VPixelIndex nr nc b r cc"
    using forward_scan_column [OF assms(1), of src nr b r] by blast
  have "\<not> cc < nc" using assms(2) [of cc] cc(2,5) by blast
  then show ?thesis using cc(1) by (simp add: forward_steps_def)
qed

lemma backward_scan_found:
  assumes "cc2 \<le> c" "src ! VPixelIndex nr nc b r cc2"
    and "\<And>k. cc2 < k \<Longrightarrow> k \<le> c \<Longrightarrow> \<not> src ! VPixelIndex nr nc b r k"
  shows "scan_backward src (int (VPixelIndex nr nc b r c)) (int c) = int cc2"
proof -
  let ?p = "int (VPixelIndex nr nc b r c)"
  let ?s = "scan_backward src ?p (int c)"
  have c: "- 1 \<le> int c" by simp
  note res = scan_backward_result [OF c, of src ?p]
  have a: "\<not> ?s < int cc2"
  proof
    assume "?s < int cc2"
    then have "\<not> src ! nat (?p - (int c - int cc2))" using res assms(1) by simp
    then show False using assms(1,2) by (simp add: VPixelIndex_shift_back)
  qed
  have b: "\<not> int cc2 < ?s"
  proof
    assume l: "int cc2 < ?s"
    define k where "k = nat ?s"
    have "?s \<le> int c" using res by simp
    then have k: "?s = int k" "cc2 < k" "k \<le> c" using l by (simp_all add: k_def)
    have "src ! nat (?p - (int c - int k))" using res k(1) by simp
    then have "src ! VPixelIndex nr nc b r k" using k(3) by (simp add: VPixelIndex_shift_back)
    then show False using assms(3) k by blast
  qed
  from a b show ?thesis by simp
qed

lemma backward_scan_none:
  assumes "\<And>k. k \<le> c \<Longrightarrow> \<not> src ! VPixelIndex nr nc b r k"
  shows "scan_backward src (int (VPixelIndex nr nc b r c)) (int c) = - 1"
proof -
  let ?p = "int (VPixelIndex nr nc b r c)"
  let ?s = "scan_backward src ?p (int c)"
  have c: "- 1 \<le> int c" by simp
  note res = scan_backward_result [OF c, of src ?p]
  have "\<not> 0 \<le> ?s"
  proof
    assume l: "0 \<le> ?s"
    define k where "k = nat ?s"
    have "?s \<le> int c" using res by simp
    then have k: "?s = int k" "k \<le> c" using l by (simp_all add: k_def)
    have "src ! nat (?p - (int c - int k))" using res l k(1) by simp
    then have "src ! VPixelIndex nr nc b r k" using k(2) by (simp add: VPixelIndex_shift_back)
    then show False using assms k by blast
  qed
  then show ?thesis using res by simp
qed

section \<open>The minimum over the window\<close>

lemma Min_insert_min:
  fixes x :: "'a :: linorder"
  assumes "finite S"
  shows "Min (insert (min x a) S) = Min (insert x (insert a S))"
  using assms by (cases "S = {}") (simp_all add: min.assoc)

lemma fold_min_eq:
  fixes f :: "nat \<Rightarrow> int"
  shows "fold (\<lambda>i dmin. let u = f i in if u < dmin then u else dmin) xs a
         = Min (insert a (f ` set xs))"
proof (induction xs arbitrary: a)
  case Nil
  show ?case by simp
next
  case (Cons x xs)
  have "(let u = f x in if u < a then u else a) = min (f x) a"
    by (simp add: Let_def min_def)
  then have "fold (\<lambda>i dmin. let u = f i in if u < dmin then u else dmin) (x # xs) a
        = Min (insert (min (f x) a) (f ` set xs))"
    by (simp add: Cons.IH)
  also have "\<dots> = Min (insert (f x) (insert a (f ` set xs)))"
    by (rule Min_insert_min) simp
  also have "insert (f x) (insert a (f ` set xs)) = insert a (f ` set (x # xs))"
    by auto
  finally show ?case .
qed

lemma window_min_eq:
  "window_min dmax array p istart iend =
     Min (insert dmax ((\<lambda>i. array ! i + (int p - int i)\<^sup>2) ` {nat istart..<nat iend}))"
  unfolding window_min_def power2_eq_square
  using fold_min_eq [of "\<lambda>i. array ! i + (int p - int i) * (int p - int i)"
      "[nat istart..<nat iend]" dmax]
  by simp

lemma row_window_min_eq:
  "row_window_min dmax array nrows r =
     Min (insert dmax ((\<lambda>i. array ! i + (int r - int i)\<^sup>2) `
       spec_window (int r - int_sqrt (array ! r)) nrows (int r + int_sqrt (array ! r) + 1)))"
proof -
  have a: "(if x < 0 then 0 else x) = max 0 x" for x :: int by simp
  have b: "(if x \<ge> int nrows then int nrows else x) = min (int nrows) x" for x :: int by simp
  show ?thesis
    unfolding row_window_min_def Let_def window_min_eq spec_window_def a b by (rule refl)
qed

lemma band_window_min_eq:
  "band_window_min dmax array nbands b =
     Min (insert dmax ((\<lambda>i. array ! i + (int b - int i)\<^sup>2) `
       spec_window (int b - int_sqrt (array ! b) - 1) nbands (int b + int_sqrt (array ! b) + 1)))"
proof -
  have a: "(if x < 0 then 0 else x) = max 0 x" for x :: int by simp
  have b: "(if x \<ge> int nbands then int nbands else x) = min (int nbands) x" for x :: int by simp
  show ?thesis
    unfolding band_window_min_def Let_def window_min_eq spec_window_def a b by (rule refl)
qed

lemma spec_window_self:
  assumes "p < n" "0 \<le> g" "0 \<le> m"
  shows "p \<in> spec_window (int p - g - m) n (int p + g + 1)"
  using assms by (auto simp: spec_window_def)

lemma spec_window_bound: "i \<in> spec_window lo n hi \<Longrightarrow> i < n"
  by (auto simp: spec_window_def)

lemma finite_spec_window: "finite (spec_window lo n hi)"
  by (simp add: spec_window_def)

lemma row_window_self:
  assumes "r < nr" "0 \<le> v"
  shows "r \<in> spec_window (int r - int_sqrt v) nr (int r + int_sqrt v + 1)"
  using spec_window_self [OF assms(1) int_sqrt_nonneg [OF assms(2)], of 0] by simp

lemma band_window_self:
  assumes "b < nb" "0 \<le> v"
  shows "b \<in> spec_window (int b - int_sqrt v - 1) nb (int b + int_sqrt v + 1)"
  using spec_window_self [OF assms(1) int_sqrt_nonneg [OF assms(2)], of 1] by simp

lemma Min_insert_dmax:
  fixes S :: "int set"
  assumes "finite S" "x \<in> S" "x \<le> dmax"
  shows "Min (insert dmax S) = Min S"
proof -
  have "Min S \<le> x" using assms(1,2) by (rule Min_le)
  then have "Min S \<le> dmax" using assms(3) by simp
  moreover have "S \<noteq> {}" using assms(2) by blast
  ultimately show ?thesis
    using Min_insert [OF assms(1), of dmax] by (simp add: min_absorb2)
qed

lemma Min_window_le:
  fixes f :: "nat \<Rightarrow> int"
  assumes "p \<in> W" "finite W" "f p = v"
  shows "Min (insert dmax (f ` W)) \<le> v"
proof -
  have "f p \<in> insert dmax (f ` W)" using assms(1) by blast
  then have "Min (insert dmax (f ` W)) \<le> f p"
    using assms(2) by (intro Min_le) simp_all
  then show ?thesis using assms(3) by simp
qed

lemma Min_window_eq:
  fixes f :: "nat \<Rightarrow> int"
  assumes "p \<in> W" "finite W" "f p \<le> dmax"
  shows "Min (insert dmax (f ` W)) = Min (f ` W)"
  by (rule Min_insert_dmax [of _ "f p"]) (use assms in auto)

lemma second_pass_window:
  assumes "b < nb" "r < nr" "c < nc" and "length dest = nb * nr * nc"
    and "\<not> src ! VPixelIndex nr nc b r c"
  shows "second_pass dmax nb nr nc src dest ! VPixelIndex nr nc b r c =
     Min (insert dmax ((\<lambda>i. dest ! VPixelIndex nr nc b i c + (int r - int i)\<^sup>2) `
       spec_window (int r - int_sqrt (dest ! VPixelIndex nr nc b r c)) nr
         (int r + int_sqrt (dest ! VPixelIndex nr nc b r c) + 1)))"
proof -
  let ?array = "map (\<lambda>r. dest ! VPixelIndex nr nc b r c) [0..<nr]"
  let ?W = "spec_window (int r - int_sqrt (dest ! VPixelIndex nr nc b r c)) nr
         (int r + int_sqrt (dest ! VPixelIndex nr nc b r c) + 1)"
  have r: "?array ! r = dest ! VPixelIndex nr nc b r c" using assms(2) by simp
  have "(\<lambda>i. ?array ! i + (int r - int i)\<^sup>2) ` ?W
      = (\<lambda>i. dest ! VPixelIndex nr nc b i c + (int r - int i)\<^sup>2) ` ?W"
    by (rule image_cong) (auto dest: spec_window_bound)
  then show ?thesis
    using assms by (simp add: second_pass_nth row_window_min_eq r)
qed

lemma third_pass_window:
  assumes "b < nb" "r < nr" "c < nc" and "length dest = nb * nr * nc"
    and "\<not> src ! VPixelIndex nr nc b r c"
  shows "third_pass dmax nb nr nc src dest ! VPixelIndex nr nc b r c =
     Min (insert dmax ((\<lambda>i. dest ! VPixelIndex nr nc i r c + (int b - int i)\<^sup>2) `
       spec_window (int b - int_sqrt (dest ! VPixelIndex nr nc b r c) - 1) nb
         (int b + int_sqrt (dest ! VPixelIndex nr nc b r c) + 1)))"
proof -
  let ?array = "map (\<lambda>b. dest ! VPixelIndex nr nc b r c) [0..<nb]"
  let ?W = "spec_window (int b - int_sqrt (dest ! VPixelIndex nr nc b r c) - 1) nb
         (int b + int_sqrt (dest ! VPixelIndex nr nc b r c) + 1)"
  have b: "?array ! b = dest ! VPixelIndex nr nc b r c" using assms(1) by simp
  have "(\<lambda>i. ?array ! i + (int b - int i)\<^sup>2) ` ?W
      = (\<lambda>i. dest ! VPixelIndex nr nc i r c + (int b - int i)\<^sup>2) ` ?W"
    by (rule image_cong) (auto dest: spec_window_bound)
  then show ?thesis
    using assms by (simp add: third_pass_nth band_window_min_eq b)
qed

text \<open>The float engine: the minimum is over the rounded sums.\<close>

lemma window_min_float_eq:
  "window_min_float dmax array p istart iend =
     Min (insert dmax ((\<lambda>i. to_VFloat (array ! i + (int p - int i)\<^sup>2)) ` {nat istart..<nat iend}))"
  unfolding window_min_float_def power2_eq_square
  using fold_min_eq [of "\<lambda>i. to_VFloat (array ! i + (int p - int i) * (int p - int i))"
      "[nat istart..<nat iend]" dmax]
  by simp

lemma row_window_min_float_eq:
  "row_window_min_float dmax array nrows r =
     Min (insert dmax ((\<lambda>i. to_VFloat (array ! i + (int r - int i)\<^sup>2)) `
       spec_window (int r - int_sqrt (array ! r)) nrows (int r + int_sqrt (array ! r) + 1)))"
proof -
  have a: "(if x < 0 then 0 else x) = max 0 x" for x :: int by simp
  have b: "(if x \<ge> int nrows then int nrows else x) = min (int nrows) x" for x :: int by simp
  show ?thesis
    unfolding row_window_min_float_def Let_def window_min_float_eq spec_window_def a b by (rule refl)
qed

lemma band_window_min_float_eq:
  "band_window_min_float dmax array nbands b =
     Min (insert dmax ((\<lambda>i. to_VFloat (array ! i + (int b - int i)\<^sup>2)) `
       spec_window (int b - int_sqrt (array ! b) - 1) nbands (int b + int_sqrt (array ! b) + 1)))"
proof -
  have a: "(if x < 0 then 0 else x) = max 0 x" for x :: int by simp
  have b: "(if x \<ge> int nbands then int nbands else x) = min (int nbands) x" for x :: int by simp
  show ?thesis
    unfolding band_window_min_float_def Let_def window_min_float_eq spec_window_def a b by (rule refl)
qed

lemma second_pass_float_window:
  assumes "b < nb" "r < nr" "c < nc" and "length dest = nb * nr * nc"
    and "\<not> src ! VPixelIndex nr nc b r c"
  shows "second_pass_float dmax nb nr nc src dest ! VPixelIndex nr nc b r c =
     Min (insert dmax ((\<lambda>i. to_VFloat (dest ! VPixelIndex nr nc b i c + (int r - int i)\<^sup>2)) `
       spec_window (int r - int_sqrt (dest ! VPixelIndex nr nc b r c)) nr
         (int r + int_sqrt (dest ! VPixelIndex nr nc b r c) + 1)))"
proof -
  let ?array = "map (\<lambda>r. dest ! VPixelIndex nr nc b r c) [0..<nr]"
  let ?W = "spec_window (int r - int_sqrt (dest ! VPixelIndex nr nc b r c)) nr
         (int r + int_sqrt (dest ! VPixelIndex nr nc b r c) + 1)"
  have r: "?array ! r = dest ! VPixelIndex nr nc b r c" using assms(2) by simp
  have "(\<lambda>i. to_VFloat (?array ! i + (int r - int i)\<^sup>2)) ` ?W
      = (\<lambda>i. to_VFloat (dest ! VPixelIndex nr nc b i c + (int r - int i)\<^sup>2)) ` ?W"
    by (rule image_cong) (auto dest: spec_window_bound)
  then show ?thesis
    using assms by (simp add: second_pass_float_nth row_window_min_float_eq r)
qed

lemma third_pass_float_window:
  assumes "b < nb" "r < nr" "c < nc" and "length dest = nb * nr * nc"
    and "\<not> src ! VPixelIndex nr nc b r c"
  shows "third_pass_float dmax nb nr nc src dest ! VPixelIndex nr nc b r c =
     Min (insert dmax ((\<lambda>i. to_VFloat (dest ! VPixelIndex nr nc i r c + (int b - int i)\<^sup>2)) `
       spec_window (int b - int_sqrt (dest ! VPixelIndex nr nc b r c) - 1) nb
         (int b + int_sqrt (dest ! VPixelIndex nr nc b r c) + 1)))"
proof -
  let ?array = "map (\<lambda>b. dest ! VPixelIndex nr nc b r c) [0..<nb]"
  let ?W = "spec_window (int b - int_sqrt (dest ! VPixelIndex nr nc b r c) - 1) nb
         (int b + int_sqrt (dest ! VPixelIndex nr nc b r c) + 1)"
  have b: "?array ! b = dest ! VPixelIndex nr nc b r c" using assms(1) by simp
  have "(\<lambda>i. to_VFloat (?array ! i + (int b - int i)\<^sup>2)) ` ?W
      = (\<lambda>i. to_VFloat (dest ! VPixelIndex nr nc i r c + (int b - int i)\<^sup>2)) ` ?W"
    by (rule image_cong) (auto dest: spec_window_bound)
  then show ?thesis
    using assms by (simp add: third_pass_float_nth band_window_min_float_eq b)
qed

lemma rounded_window_min_exact:
  assumes "\<And>i. i \<in> W \<Longrightarrow> 0 \<le> scratch i \<and> scratch i + (int p - int i)\<^sup>2 < 2 ^ 24"
  shows "rounded_window_min scratch p W = spec_window_min scratch p W"
proof -
  have "(\<lambda>i. to_VFloat (scratch i + (int p - int i)\<^sup>2)) ` W
      = (\<lambda>i. scratch i + (int p - int i)\<^sup>2) ` W"
  proof (rule image_cong [OF refl])
    fix i assume "i \<in> W"
    then have "0 \<le> scratch i" "scratch i + (int p - int i)\<^sup>2 < 2 ^ 24"
      using assms by blast+
    moreover have "0 \<le> (int p - int i)\<^sup>2" by simp
    ultimately show "to_VFloat (scratch i + (int p - int i)\<^sup>2) = scratch i + (int p - int i)\<^sup>2"
      by (intro to_VFloat_small) linarith+
  qed
  then show ?thesis by (simp add: rounded_window_min_def spec_window_min_def)
qed

section \<open>The window loses nothing\<close>

text \<open>
  On a line of values that are not negative, a candidate more than \<open>floor(g)\<close> away
  from \<open>p\<close> contributes more than the value at \<open>p\<close> itself. So the minimum over the
  window is the minimum over the whole line, in the second pass and, with its extra
  index below, in the third pass: the two passes compute the same function of a line.
\<close>

lemma window_exact:
  fixes array :: "int list"
  assumes p: "p < n" and nonneg: "\<And>i. i < n \<Longrightarrow> 0 \<le> array ! i"
    and sub: "W \<subseteq> {..<n}"
    and near: "\<And>i. i < n \<Longrightarrow> \<bar>int p - int i\<bar> \<le> int_sqrt (array ! p) \<Longrightarrow> i \<in> W"
  shows "Min (insert dmax ((\<lambda>i. array ! i + (int p - int i)\<^sup>2) ` W))
       = Min (insert dmax ((\<lambda>i. array ! i + (int p - int i)\<^sup>2) ` {..<n}))"
proof (rule antisym)
  let ?f = "\<lambda>i. array ! i + (int p - int i)\<^sup>2"
  let ?g = "int_sqrt (array ! p)"
  have fin: "finite W" using sub by (rule finite_subset) simp
  have pW: "p \<in> W" using near [OF p] int_sqrt_nonneg [OF nonneg [OF p]] by simp
  show "Min (insert dmax (?f ` {..<n})) \<le> Min (insert dmax (?f ` W))"
    by (rule Min_antimono) (use sub in auto)
  show "Min (insert dmax (?f ` W)) \<le> Min (insert dmax (?f ` {..<n}))"
  proof (rule Min.boundedI)
    fix a
    assume "a \<in> insert dmax (?f ` {..<n})"
    then consider "a = dmax" | i where "i < n" "a = ?f i" by auto
    then show "Min (insert dmax (?f ` W)) \<le> a"
    proof cases
      case 1
      then show ?thesis using fin by (intro Min_le) simp_all
    next
      case (2 i)
      show ?thesis
      proof (cases "i \<in> W")
        case True
        then show ?thesis using fin 2 by (intro Min_le) simp_all
      next
        case False
        then have far: "?g + 1 \<le> \<bar>int p - int i\<bar>" using near [OF 2(1)] by linarith
        have "0 \<le> ?g + 1" using int_sqrt_nonneg [OF nonneg [OF p]] by simp
        then have "(?g + 1)\<^sup>2 \<le> \<bar>int p - int i\<bar>\<^sup>2"
          using far by (intro power_mono) simp_all
        then have "(?g + 1)\<^sup>2 \<le> (int p - int i)\<^sup>2" by simp
        moreover have "array ! p < (?g + 1)\<^sup>2"
          using int_sqrt_bounds(2) [OF nonneg [OF p]] .
        ultimately have "array ! p \<le> ?f i" using nonneg [OF 2(1)] by linarith
        moreover have "Min (insert dmax (?f ` W)) \<le> array ! p"
          by (rule Min_window_le [OF pW fin]) simp
        ultimately show ?thesis using 2(2) by linarith
      qed
    qed
  qed simp_all
qed

lemma band_window_min_eq_row_window_min:
  assumes "p < n" and "\<And>i. i < n \<Longrightarrow> 0 \<le> array ! i"
  shows "band_window_min dmax array n p = row_window_min dmax array n p"
proof -
  let ?g = "int_sqrt (array ! p)"
  have g: "0 \<le> ?g" using assms by (intro int_sqrt_nonneg) simp
  have "Min (insert dmax ((\<lambda>i. array ! i + (int p - int i)\<^sup>2) `
            spec_window (int p - ?g - 1) n (int p + ?g + 1)))
      = Min (insert dmax ((\<lambda>i. array ! i + (int p - int i)\<^sup>2) ` {..<n}))"
    by (rule window_exact [OF assms]) (auto simp: spec_window_def)
  moreover have "Min (insert dmax ((\<lambda>i. array ! i + (int p - int i)\<^sup>2) `
            spec_window (int p - ?g) n (int p + ?g + 1)))
      = Min (insert dmax ((\<lambda>i. array ! i + (int p - int i)\<^sup>2) ` {..<n}))"
    by (rule window_exact [OF assms]) (auto simp: spec_window_def)
  ultimately show ?thesis
    by (simp add: band_window_min_eq row_window_min_eq)
qed

section \<open>The values of the example volumes\<close>

lemma column8_first_pass:
  "first_pass_short 1 8 1 column8 (replicate (1 * 8 * 1) 0) = column8_first"
  by code_simp

lemma squared_field_short_column8:
  "squared_field_short 1 8 1 column8 = [0, 1, 4, 9, 16, 25, 32, 32]"
  by code_simp

lemma squared_field_float_column8:
  "squared_field_float 1 8 1 column8 = [0, 1, 1, 1, 1, 1, 1, 1]"
  by code_simp

lemma squared_field_float_row3:
  "squared_field_float 1 1 3 row3 = [0, 9, 9]"
  by code_simp

lemma squared_field_float_row3_reflected:
  "squared_field_float 1 1 3 [False, False, True] = [4, 1, 0]"
  by code_simp

lemma squared_field_short_row3:
  "squared_field_short 1 1 3 row3 = [0, 1, 4]"
  by code_simp

lemma squared_field_short_row3_reflected:
  "squared_field_short 1 1 3 [False, False, True] = [4, 1, 0]"
  by code_simp

lemma min_sq_dist_column8: "min_sq_dist 1 8 1 column8 (0, 7, 0) = 49"
  by code_simp

lemma min_sq_dist_row3: "min_sq_dist 1 1 3 row3 (0, 0, 1) = 1"
  by code_simp

lemma VPixelIndex_column8: "VPixelIndex 8 1 0 7 0 = 7"
  by code_simp

lemma VPixelIndex_row3: "VPixelIndex 1 3 0 0 1 = 1"
  by code_simp

lemma reflect_columns_3: "reflect_columns 1 1 3 [x, y, z] = [z, y, x]"
proof -
  have "[0..<3] = [0, 1, 2]" by code_simp
  then show ?thesis by (simp add: reflect_columns_def VPixelIndex_def)
qed

lemma sqrt_49: "sqrt 49 = 7"
  using real_sqrt_abs [of 7] by simp

lemma sqrt_9: "sqrt 9 = 3"
  using real_sqrt_abs [of 3] by simp

lemma VRint_70: "VRint 70 = 70"
  by (simp add: VRint_def)

lemma final_short_32: "final_short 32 = 57"
  by (rule final_short_eq) simp_all

lemma final_short_1: "final_short 1 = 10"
  by (rule final_short_eq) simp_all

lemma final_short_4: "final_short 4 = 20"
  by (rule final_short_eq) simp_all

lemma nine_field_first_pass:
  "first_pass_float 3 3 1 nine (VFillImage (3 * 3 * 1) 0) = nine_field"
  by code_simp

lemma wide_nth: "k < 8196 \<Longrightarrow> wide ! k = (k = 4096)"
  by (auto simp: wide_def nth_append nth_Cons')

lemma to_VFloat_4096_squared: "to_VFloat 16777216 = 16777216"
  by code_simp

lemma to_VFloat_4098_squared: "to_VFloat 16793604 = 16793604"
  by code_simp

lemma wide_first_row_0: "wide_first ! 0 = 16777216"
proof -
  have h: "(0::nat) < 1" "(0::nat) < 2" "(0::nat) < 4098"
    "length (VFillImage (1 * 2 * 4098) (0::int)) = 1 * 2 * 4098"
    by (simp_all add: VFillImage_def)
  have i: "VPixelIndex 2 4098 0 0 k = k" for k by (simp add: VPixelIndex_def)
  have f: "forward_steps 2 4098 wide 0 0 0 = int 4096 - int 0"
    by (rule forward_steps_found) (simp_all add: i wide_nth)
  have "scan_backward wide (int (VPixelIndex 2 4098 0 0 0)) (int 0) = - 1"
    by (rule backward_scan_none) (simp add: i wide_nth)
  then have g: "backward_steps_float 2 4098 wide 0 0 0 = 4098"
    by (simp add: backward_steps_float_def)
  have "wide_first ! VPixelIndex 2 4098 0 0 0 = to_VFloat 16777216"
    unfolding wide_first_def first_pass_float_nth [OF h] f g
    by (simp add: i wide_nth)
  then show ?thesis by (simp add: i to_VFloat_4096_squared)
qed

lemma wide_first_row_1: "wide_first ! 4098 = 16793604"
proof -
  have h: "(0::nat) < 1" "(1::nat) < 2" "(0::nat) < 4098"
    "length (VFillImage (1 * 2 * 4098) (0::int)) = 1 * 2 * 4098"
    by (simp_all add: VFillImage_def)
  have i: "VPixelIndex 2 4098 0 1 k = 4098 + k" for k by (simp add: VPixelIndex_def)
  have f: "forward_steps 2 4098 wide 0 1 0 = int 4098"
    by (rule forward_steps_none) (simp_all add: VPixelIndex_def wide_nth)
  have "scan_backward wide (int (VPixelIndex 2 4098 0 1 0)) (int 0) = - 1"
    by (rule backward_scan_none) (simp add: VPixelIndex_def wide_nth)
  then have g: "backward_steps_float 2 4098 wide 0 1 0 = 4098"
    by (simp add: backward_steps_float_def)
  have "wide_first ! VPixelIndex 2 4098 0 1 0 = to_VFloat 16793604"
    unfolding wide_first_def first_pass_float_nth [OF h] f g
    by (simp add: VPixelIndex_def wide_nth)
  then show ?thesis unfolding i to_VFloat_4098_squared by simp
qed

lemma length_wide_first: "length wide_first = 1 * 2 * 4098"
  by (simp add: wide_first_def length_first_pass_float VFillImage_def)

lemma row_window_min_float_wide:
  "row_window_min_float VFloat_max [16777216, 16793604] 2 1 = 16777216"
  by code_simp

lemma int_sqrt_wide: "int_sqrt 16793604 = 4098"
  by (rule int_sqrt_unique) simp_all

lemma second_pass_float_wide:
  "second_pass_float VFloat_max 1 2 4098 wide wide_first ! 4098 = 16777216"
proof -
  have h: "(0::nat) < 1" "(1::nat) < 2" "(0::nat) < 4098" by simp_all
  have i: "VPixelIndex 2 4098 0 1 0 = 4098" by (simp add: VPixelIndex_def)
  have u: "[0..<2] = [0, Suc 0]" by (simp add: upt_rec)
  have m: "map (\<lambda>r. wide_first ! VPixelIndex 2 4098 0 r 0) [0..<2] = [16777216, 16793604]"
    unfolding u by (simp add: VPixelIndex_def wide_first_row_0 wide_first_row_1)
  have "second_pass_float VFloat_max 1 2 4098 wide wide_first ! VPixelIndex 2 4098 0 1 0
      = row_window_min_float VFloat_max [16777216, 16793604] 2 1"
    unfolding second_pass_float_nth [OF h length_wide_first] m
    by (simp add: VPixelIndex_def wide_nth)
  then show ?thesis unfolding i row_window_min_float_wide .
qed

lemma spec_window_min_wide:
  "spec_window_min wide_scratch 1 (spec_window (int 1 - 4098) 2 (int 1 + 4098 + 1)) = 16777217"
proof -
  have w: "spec_window (int 1 - 4098) 2 (int 1 + 4098 + 1) = {0, Suc 0}"
    by (auto simp: spec_window_def)
  have a: "wide_scratch 0 = 16777216"
    by (simp add: wide_scratch_def VPixelIndex_def wide_first_row_0)
  have b: "wide_scratch (Suc 0) = 16793604"
    by (simp add: wide_scratch_def VPixelIndex_def wide_first_row_1)
  show ?thesis unfolding w spec_window_min_def by (simp add: a b)
qed

section \<open>The dispatcher and the engines in memory\<close>

lemma VSelectDestImage_frame:
  assumes sel: "VSelectDestImage dest nb nr nc repn h = (res, h1)"
    and src: "src < length h" "VPixelRepn (h ! src) \<noteq> repn"
  shows "h1 ! src = h ! src \<and> res \<noteq> Some src"
proof (cases dest)
  case None
  then have "res = Some (length h)" "\<exists>x. h1 = h @ [x]"
    using sel by (auto simp: VSelectDestImage_def)
  then show ?thesis using src by (auto simp: nth_append)
next
  case (Some d)
  show ?thesis
  proof (cases "d < length h \<and> VImageNBands (h ! d) = nb \<and> VImageNRows (h ! d) = nr
                  \<and> VImageNColumns (h ! d) = nc \<and> VPixelRepn (h ! d) = repn")
    case True
    then have "res = Some d" "h1 = h"
      using sel Some by (simp_all add: VSelectDestImage_def)
    then show ?thesis using True src by auto
  next
    case False
    then have "res = Some (length h)" "\<exists>x. h1 = h @ [x]"
      using sel Some by (auto simp: VSelectDestImage_def)
    then show ?thesis using src by (auto simp: nth_append)
  qed
qed

text \<open>
  C5: for an input image whose element type is not single-bit, the dispatcher ends with
  the error \<open>InvalidInputKind\<close>; neither engine has run, no image is returned and
  memory, with any destination the caller supplied, is as it was.
\<close>

theorem VEuclideanDist3d_invalid_input:
  "VPixelRepn (h ! src) \<noteq> VBitRepn \<Longrightarrow>
   VEuclideanDist3d src dest repn h = (Inl InvalidInputKind, h)"
  by (simp add: VEuclideanDist3d_def VError_def)

theorem VEuclideanDist3d_invalid_input_witness:
  "VPixelRepn (three_images ! 1) \<noteq> VBitRepn
   \<and> VEuclideanDist3d 1 (Some 2) VFloatRepn three_images
       = (Inl InvalidInputKind, three_images)"
  using VEuclideanDist3d_invalid_input [of three_images 1 "Some 2" VFloatRepn]
  by (simp add: three_images_def)

text \<open>
  C9: an engine called on a single-bit source image leaves that image as it was: the
  pixels and every other part of the source are the same after the call as before.
\<close>

theorem engines_leave_src_unchanged:
  assumes "src < length h" and "VPixelRepn (h ! src) = VBitRepn"
  shows "snd (VEDistFloat3d src dest h) ! src = h ! src
       \<and> snd (VEDistShort3d src dest h) ! src = h ! src"
proof
  have f: "VPixelRepn (h ! src) \<noteq> VFloatRepn" using assms(2) by simp
  show "snd (VEDistFloat3d src dest h) ! src = h ! src"
  proof (cases "VSelectDestImage dest (VImageNBands (h ! src)) (VImageNRows (h ! src))
                  (VImageNColumns (h ! src)) VFloatRepn h")
    case (Pair res h1)
    show ?thesis
      using VSelectDestImage_frame [OF Pair assms(1) f]
      by (cases res) (simp_all add: VEDistFloat3d_def VCopyImageAttrs_def Let_def Pair)
  qed
  have s: "VPixelRepn (h ! src) \<noteq> VShortRepn" using assms(2) by simp
  show "snd (VEDistShort3d src dest h) ! src = h ! src"
  proof (cases "VSelectDestImage dest (VImageNBands (h ! src)) (VImageNRows (h ! src))
                  (VImageNColumns (h ! src)) VShortRepn h")
    case (Pair res h1)
    show ?thesis
      using VSelectDestImage_frame [OF Pair assms(1) s]
      by (cases res) (simp_all add: VEDistShort3d_def VCopyImageAttrs_def Let_def Pair)
  qed
qed

theorem engines_leave_src_unchanged_witness:
  "0 < length three_images \<and> VPixelRepn (three_images ! 0) = VBitRepn
   \<and> snd (VEDistFloat3d 0 (Some 1) three_images) ! 0 = three_images ! 0
   \<and> snd (VEDistShort3d 0 (Some 1) three_images) ! 0 = three_images ! 0"
  using engines_leave_src_unchanged [of 0 three_images "Some 1"]
  by (simp add: three_images_def)

section \<open>The first pass\<close>

text \<open>
  The step counts of the scans in general. The forward count is \<open>cc1 - c\<close> when the
  nearest foreground voxel forward is in column \<open>cc1\<close> and \<open>ncols\<close> when there is none.
  The backward count of the short engine is \<open>c - cc2\<close> when the nearest foreground voxel
  backward is in column \<open>cc2\<close>; that of the float engine only when \<open>cc2 > 0\<close>. Both are
  \<open>ncols\<close> when there is none.
\<close>

lemma step_counts_of_scans:
  assumes "c < nc" and "\<not> src ! VPixelIndex nr nc b r c"
  shows "(\<forall>cc1. c \<le> cc1 \<and> cc1 < nc \<and> src ! VPixelIndex nr nc b r cc1
              \<and> (\<forall>k. c \<le> k \<and> k < cc1 \<longrightarrow> \<not> src ! VPixelIndex nr nc b r k)
            \<longrightarrow> forward_steps nr nc src b r c = int cc1 - int c)
       \<and> ((\<forall>k. c \<le> k \<and> k < nc \<longrightarrow> \<not> src ! VPixelIndex nr nc b r k)
            \<longrightarrow> forward_steps nr nc src b r c = int nc)
       \<and> (\<forall>cc2. cc2 \<le> c \<and> src ! VPixelIndex nr nc b r cc2
              \<and> (\<forall>k. cc2 < k \<and> k \<le> c \<longrightarrow> \<not> src ! VPixelIndex nr nc b r k)
            \<longrightarrow> backward_steps_short nr nc src b r c = int c - int cc2
              \<and> (0 < cc2 \<longrightarrow> backward_steps_float nr nc src b r c = int c - int cc2)
              \<and> (cc2 = 0 \<longrightarrow> backward_steps_float nr nc src b r c = int nc))
       \<and> ((\<forall>k. k \<le> c \<longrightarrow> \<not> src ! VPixelIndex nr nc b r k)
            \<longrightarrow> backward_steps_short nr nc src b r c = int nc
              \<and> backward_steps_float nr nc src b r c = int nc)"
proof (intro conjI allI impI)
  fix cc1
  assume "c \<le> cc1 \<and> cc1 < nc \<and> src ! VPixelIndex nr nc b r cc1
              \<and> (\<forall>k. c \<le> k \<and> k < cc1 \<longrightarrow> \<not> src ! VPixelIndex nr nc b r k)"
  then show "forward_steps nr nc src b r c = int cc1 - int c"
    by (intro forward_steps_found) blast+
next
  assume "\<forall>k. c \<le> k \<and> k < nc \<longrightarrow> \<not> src ! VPixelIndex nr nc b r k"
  then show "forward_steps nr nc src b r c = int nc"
    using assms(1) by (intro forward_steps_none) auto
next
  fix cc2
  assume a: "cc2 \<le> c \<and> src ! VPixelIndex nr nc b r cc2
              \<and> (\<forall>k. cc2 < k \<and> k \<le> c \<longrightarrow> \<not> src ! VPixelIndex nr nc b r k)"
  then have s: "scan_backward src (int (VPixelIndex nr nc b r c)) (int c) = int cc2"
    by (intro backward_scan_found) blast+
  show "backward_steps_short nr nc src b r c = int c - int cc2"
    by (simp add: backward_steps_short_def s)
  show "backward_steps_float nr nc src b r c = int c - int cc2" if "0 < cc2"
    using that by (simp add: backward_steps_float_def s)
  show "backward_steps_float nr nc src b r c = int nc" if "cc2 = 0"
    using that by (simp add: backward_steps_float_def s)
next
  assume "\<forall>k. k \<le> c \<longrightarrow> \<not> src ! VPixelIndex nr nc b r k"
  then have s: "scan_backward src (int (VPixelIndex nr nc b r c)) (int c) = - 1"
    by (intro backward_scan_none) blast
  show "backward_steps_short nr nc src b r c = int nc"
    by (simp add: backward_steps_short_def s)
  show "backward_steps_float nr nc src b r c = int nc"
    by (simp add: backward_steps_float_def s)
qed

text \<open>
  C3: at a background voxel \<open>(b,r,c)\<close> the backward step count is \<open>c - cc2\<close> when there
  is a foreground voxel backward in column \<open>cc2\<close>, and the field gets the square of the
  smaller of the two counts. The float engine does not do that when the foreground voxel
  is in column 0. In the row of three voxels, whose foreground voxel is in column 0, the
  voxel in column 1 has no foreground voxel forward (count 3) and the foreground voxel
  one step backward. The short engine counts 1 backward and writes 1; the float engine
  counts 3 backward, as if there were no foreground voxel, and writes 9, where the
  squared distance to the nearest foreground voxel is 1.
\<close>

theorem first_pass_float_backward_differs:
  "row3 ! VPixelIndex 1 3 0 0 0
   \<and> \<not> row3 ! VPixelIndex 1 3 0 0 1
   \<and> forward_steps 1 3 row3 0 0 1 = 3
   \<and> backward_steps_short 1 3 row3 0 0 1 = 1
   \<and> first_pass_short 1 1 3 row3 [0, 0, 0] ! VPixelIndex 1 3 0 0 1 = 1
   \<and> backward_steps_float 1 3 row3 0 0 1 = 3
   \<and> first_pass_float 1 1 3 row3 [0, 0, 0] ! VPixelIndex 1 3 0 0 1 = 9
   \<and> min_sq_dist 1 1 3 row3 (0, 0, 1) = 1"
proof -
  have a: "row3 ! VPixelIndex 1 3 0 0 0" by code_simp
  have b: "\<not> row3 ! VPixelIndex 1 3 0 0 1" by code_simp
  have c: "forward_steps 1 3 row3 0 0 1 = 3" by code_simp
  have d: "backward_steps_short 1 3 row3 0 0 1 = 1" by code_simp
  have e: "first_pass_short 1 1 3 row3 [0, 0, 0] ! VPixelIndex 1 3 0 0 1 = 1" by code_simp
  have f: "backward_steps_float 1 3 row3 0 0 1 = 3" by code_simp
  have g: "first_pass_float 1 1 3 row3 [0, 0, 0] ! VPixelIndex 1 3 0 0 1 = 9" by code_simp
  show ?thesis using a b c d e f g min_sq_dist_row3 by blast
qed

text \<open>
  The value of a row without a foreground voxel in the first pass of the short engine:
  \<open>0.5 * nrows^2\<close> with its fraction dropped, for \<open>nrows\<close> up to 255, where the constant
  is a \<open>VShort\<close>.
\<close>

lemma empty_row_value:
  assumes "b < nb" "r < nr" "c < nc" and "length dest = nb * nr * nc"
    and "\<forall>k<nc. \<not> src ! VPixelIndex nr nc b r k" and "nr \<le> 255"
  shows "first_pass_short nb nr nc src dest ! VPixelIndex nr nc b r c = int nr * int nr div 2
       \<and> first_pass_short nb nr nc src dest ! VPixelIndex nr nc b r c
           = \<lfloor>1 / 2 * (real nr)\<^sup>2\<rfloor>"
proof -
  have ex: "\<not> list_ex (\<lambda>c. src ! VPixelIndex nr nc b r c) [0..<nc]"
    using assms(5) by (auto simp: list_ex_iff)
  have "int nr * int nr \<le> 255 * 255"
    using assms(6) by (intro mult_mono) simp_all
  then have "int nr * int nr div 2 \<le> 32767" by linarith
  moreover have "0 \<le> int nr * int nr div 2" by simp
  then have "- 32768 \<le> int nr * int nr div 2" by linarith
  ultimately have d: "double_to_VShort (int nr * int nr div 2) = int nr * int nr div 2"
    by (simp add: double_to_VShort_def)
  have v: "first_pass_short nb nr nc src dest ! VPixelIndex nr nc b r c = int nr * int nr div 2"
    using ex d by (simp add: first_pass_short_nth [OF assms(1-4)])
  have "\<lfloor>1 / 2 * (real nr)\<^sup>2\<rfloor> = \<lfloor>real_of_int (int nr * int nr) / real_of_int 2\<rfloor>"
    by (simp add: power2_eq_square)
  also have "\<dots> = int nr * int nr div 2"
    by (rule floor_divide_of_int_eq)
  finally show ?thesis using v by simp
qed

lemma squared_field_short_six: "squared_field_short 3 2 1 six = [0, 1, 1, 2, 2, 2]"
  by code_simp

lemma squared_field_short_pair2: "squared_field_short 2 1 1 pair2 = [0, 0]"
  by code_simp

lemma final_short_2: "final_short 2 = 14"
  by (rule final_short_eq) simp_all

lemma VRint_10_sqrt_4: "VRint (10 * sqrt (real_of_int 4)) = 20"
proof -
  have "int_sqrt 1600 = 40" by (rule int_sqrt_unique) simp_all
  then show ?thesis using VRint_10_sqrt [of 4] by simp
qed

lemma VRint_10_sqrt_5: "VRint (10 * sqrt (real_of_int 5)) = 22"
proof -
  have "int_sqrt 2000 = 44" by (rule int_sqrt_unique) simp_all
  then show ?thesis using VRint_10_sqrt [of 5] by simp
qed

lemma VRint_10_sqrt_1: "VRint (10 * sqrt (real_of_int 1)) = 10"
  by (simp add: VRint_def)

text \<open>
  C2: in the first pass of the short engine a row without a foreground voxel is filled
  with \<open>0.5 * nrows^2\<close>, and that value is at least the squared distance from each of
  its voxels to the nearest foreground voxel. It is not. In the volume of three bands of
  two rows and one column, whose foreground voxel is \<open>(0,0,0)\<close>, the voxel \<open>(2,1,0)\<close>
  gets 2 and is at the squared distance 5; the later passes never look farther than the
  root of the value, and the engine ends with 14 at \<open>(2,0,0)\<close> and \<open>(2,1,0)\<close>, where ten
  times the distance is 20 and 22. In two bands of one voxel each the constant is
  \<open>0.5\<close>, stored as 0, and the engine ends with 0 at the background voxel, at the
  distance 1 from the foreground voxel.
\<close>

theorem empty_row_sentinel_differs:
  "\<not> six ! VPixelIndex 2 1 2 0 0
   \<and> \<not> six ! VPixelIndex 2 1 2 1 0
   \<and> first_pass_short 3 2 1 six (VFillImage (3 * 2 * 1) 0) ! VPixelIndex 2 1 2 1 0 = 2
   \<and> min_sq_dist 3 2 1 six (2, 1, 0) = 5
   \<and> min_sq_dist 3 2 1 six (2, 0, 0) = 4
   \<and> VEDistShort3d_pixels 3 2 1 six = [0, 10, 10, 14, 14, 14]
   \<and> VRint (10 * sqrt (real_of_int (min_sq_dist 3 2 1 six (2, 0, 0)))) = 20
   \<and> VRint (10 * sqrt (real_of_int (min_sq_dist 3 2 1 six (2, 1, 0)))) = 22
   \<and> \<not> pair2 ! VPixelIndex 1 1 1 0 0
   \<and> first_pass_short 2 1 1 pair2 (VFillImage (2 * 1 * 1) 0) ! VPixelIndex 1 1 1 0 0 = 0
   \<and> min_sq_dist 2 1 1 pair2 (1, 0, 0) = 1
   \<and> VEDistShort3d_pixels 2 1 1 pair2 = [0, 0]
   \<and> VRint (10 * sqrt (real_of_int (min_sq_dist 2 1 1 pair2 (1, 0, 0)))) = 10"
proof -
  have a: "\<not> six ! VPixelIndex 2 1 2 0 0" by code_simp
  have b: "\<not> six ! VPixelIndex 2 1 2 1 0" by code_simp
  have c: "first_pass_short 3 2 1 six (VFillImage (3 * 2 * 1) 0) ! VPixelIndex 2 1 2 1 0 = 2"
    by code_simp
  have d: "min_sq_dist 3 2 1 six (2, 1, 0) = 5" by code_simp
  have e: "min_sq_dist 3 2 1 six (2, 0, 0) = 4" by code_simp
  have f: "VEDistShort3d_pixels 3 2 1 six = [0, 10, 10, 14, 14, 14]"
    unfolding VEDistShort3d_pixels_def squared_field_short_six
    by (simp add: final_short_0 final_short_1 final_short_2)
  have g: "\<not> pair2 ! VPixelIndex 1 1 1 0 0" by code_simp
  have h: "first_pass_short 2 1 1 pair2 (VFillImage (2 * 1 * 1) 0) ! VPixelIndex 1 1 1 0 0 = 0"
    by code_simp
  have i: "min_sq_dist 2 1 1 pair2 (1, 0, 0) = 1" by code_simp
  have j: "VEDistShort3d_pixels 2 1 1 pair2 = [0, 0]"
    unfolding VEDistShort3d_pixels_def squared_field_short_pair2
    by (simp add: final_short_0)
  show ?thesis
    unfolding d e i VRint_10_sqrt_4 VRint_10_sqrt_5 VRint_10_sqrt_1
    using a b c f g h j by blast
qed

section \<open>The second and the third pass\<close>

text \<open>
  C4, as the code has it. Let \<open>(b,r,c)\<close> be a background voxel whose value \<open>v\<close> is not
  negative and at most \<open>dmax\<close>, and \<open>g = sqrt v\<close>. In the short engine the second pass
  writes the least \<open>scratch[rr] + (r - rr)^2\<close> over the rows \<open>rr\<close> from
  \<open>max(0, r - floor(g))\<close> up to \<open>min(nrows, r + floor(g) + 1)\<close>, where \<open>scratch\<close> holds
  the values of the field along the rows at \<open>(b,c)\<close>, and the third pass does the same
  along the bands, with the lower bound \<open>max(0, b - floor(g) - 1)\<close>. In the float engine,
  where \<open>v\<close> is a \<open>VFloat\<close>, each sum is rounded to a \<open>VFloat\<close> before it is compared:
  the passes write the least rounded sum over the same windows, which is the least sum
  when the values along the line are not negative and all sums are below \<open>2^24\<close>.
\<close>

theorem window_minimum_of_passes:
  assumes "b < nb" "r < nr" "c < nc" and "length dest = nb * nr * nc"
    and "\<not> src ! VPixelIndex nr nc b r c"
    and "0 \<le> dest ! VPixelIndex nr nc b r c" and "dest ! VPixelIndex nr nc b r c \<le> dmax"
  shows "second_pass dmax nb nr nc src dest ! VPixelIndex nr nc b r c =
           spec_window_min (\<lambda>rr. dest ! VPixelIndex nr nc b rr c) r
             (spec_window (int r - \<lfloor>sqrt (real_of_int (dest ! VPixelIndex nr nc b r c))\<rfloor>) nr
                (int r + \<lfloor>sqrt (real_of_int (dest ! VPixelIndex nr nc b r c))\<rfloor> + 1))
       \<and> third_pass dmax nb nr nc src dest ! VPixelIndex nr nc b r c =
           spec_window_min (\<lambda>bb. dest ! VPixelIndex nr nc bb r c) b
             (spec_window (int b - \<lfloor>sqrt (real_of_int (dest ! VPixelIndex nr nc b r c))\<rfloor> - 1) nb
                (int b + \<lfloor>sqrt (real_of_int (dest ! VPixelIndex nr nc b r c))\<rfloor> + 1))
       \<and> (to_VFloat (dest ! VPixelIndex nr nc b r c) = dest ! VPixelIndex nr nc b r c \<longrightarrow>
           second_pass_float dmax nb nr nc src dest ! VPixelIndex nr nc b r c =
             rounded_window_min (\<lambda>rr. dest ! VPixelIndex nr nc b rr c) r
               (spec_window (int r - \<lfloor>sqrt (real_of_int (dest ! VPixelIndex nr nc b r c))\<rfloor>) nr
                  (int r + \<lfloor>sqrt (real_of_int (dest ! VPixelIndex nr nc b r c))\<rfloor> + 1))
         \<and> third_pass_float dmax nb nr nc src dest ! VPixelIndex nr nc b r c =
             rounded_window_min (\<lambda>bb. dest ! VPixelIndex nr nc bb r c) b
               (spec_window (int b - \<lfloor>sqrt (real_of_int (dest ! VPixelIndex nr nc b r c))\<rfloor> - 1) nb
                  (int b + \<lfloor>sqrt (real_of_int (dest ! VPixelIndex nr nc b r c))\<rfloor> + 1)))
       \<and> ((\<forall>rr<nr. 0 \<le> dest ! VPixelIndex nr nc b rr c
               \<and> dest ! VPixelIndex nr nc b rr c + (int r - int rr)\<^sup>2 < 2 ^ 24) \<longrightarrow>
           second_pass_float dmax nb nr nc src dest ! VPixelIndex nr nc b r c =
             spec_window_min (\<lambda>rr. dest ! VPixelIndex nr nc b rr c) r
               (spec_window (int r - \<lfloor>sqrt (real_of_int (dest ! VPixelIndex nr nc b r c))\<rfloor>) nr
                  (int r + \<lfloor>sqrt (real_of_int (dest ! VPixelIndex nr nc b r c))\<rfloor> + 1)))
       \<and> ((\<forall>bb<nb. 0 \<le> dest ! VPixelIndex nr nc bb r c
               \<and> dest ! VPixelIndex nr nc bb r c + (int b - int bb)\<^sup>2 < 2 ^ 24) \<longrightarrow>
           third_pass_float dmax nb nr nc src dest ! VPixelIndex nr nc b r c =
             spec_window_min (\<lambda>bb. dest ! VPixelIndex nr nc bb r c) b
               (spec_window (int b - \<lfloor>sqrt (real_of_int (dest ! VPixelIndex nr nc b r c))\<rfloor> - 1) nb
                  (int b + \<lfloor>sqrt (real_of_int (dest ! VPixelIndex nr nc b r c))\<rfloor> + 1)))"
proof -
  let ?v = "dest ! VPixelIndex nr nc b r c"
  let ?R = "\<lambda>rr. dest ! VPixelIndex nr nc b rr c"
  let ?B = "\<lambda>bb. dest ! VPixelIndex nr nc bb r c"
  let ?WR = "spec_window (int r - int_sqrt ?v) nr (int r + int_sqrt ?v + 1)"
  let ?WB = "spec_window (int b - int_sqrt ?v - 1) nb (int b + int_sqrt ?v + 1)"
  have g: "\<lfloor>sqrt (real_of_int ?v)\<rfloor> = int_sqrt ?v"
    using assms(6) by (simp add: int_sqrt_floor)
  have rw: "r \<in> ?WR" using assms(2,6) by (rule row_window_self)
  have bw: "b \<in> ?WB" using assms(1,6) by (rule band_window_self)
  have "Min (insert dmax ((\<lambda>i. ?R i + (int r - int i)\<^sup>2) ` ?WR))
     = Min ((\<lambda>i. ?R i + (int r - int i)\<^sup>2) ` ?WR)"
    by (rule Min_window_eq [of r]) (use assms(7) rw finite_spec_window in simp_all)
  then have s2: "second_pass dmax nb nr nc src dest ! VPixelIndex nr nc b r c
      = spec_window_min ?R r ?WR"
    unfolding spec_window_min_def second_pass_window [OF assms(1-5)] .
  have "Min (insert dmax ((\<lambda>i. ?B i + (int b - int i)\<^sup>2) ` ?WB))
     = Min ((\<lambda>i. ?B i + (int b - int i)\<^sup>2) ` ?WB)"
    by (rule Min_window_eq [of b]) (use assms(7) bw finite_spec_window in simp_all)
  then have s3: "third_pass dmax nb nr nc src dest ! VPixelIndex nr nc b r c
      = spec_window_min ?B b ?WB"
    unfolding spec_window_min_def third_pass_window [OF assms(1-5)] .
  have f2: "second_pass_float dmax nb nr nc src dest ! VPixelIndex nr nc b r c
      = rounded_window_min ?R r ?WR" if "to_VFloat ?v = ?v"
  proof -
    have "Min (insert dmax ((\<lambda>i. to_VFloat (?R i + (int r - int i)\<^sup>2)) ` ?WR))
       = Min ((\<lambda>i. to_VFloat (?R i + (int r - int i)\<^sup>2)) ` ?WR)"
      by (rule Min_window_eq [of r]) (use assms(7) that rw finite_spec_window in simp_all)
    then show ?thesis
      unfolding rounded_window_min_def second_pass_float_window [OF assms(1-5)] .
  qed
  have f3: "third_pass_float dmax nb nr nc src dest ! VPixelIndex nr nc b r c
      = rounded_window_min ?B b ?WB" if "to_VFloat ?v = ?v"
  proof -
    have "Min (insert dmax ((\<lambda>i. to_VFloat (?B i + (int b - int i)\<^sup>2)) ` ?WB))
       = Min ((\<lambda>i. to_VFloat (?B i + (int b - int i)\<^sup>2)) ` ?WB)"
      by (rule Min_window_eq [of b]) (use assms(7) that bw finite_spec_window in simp_all)
    then show ?thesis
      unfolding rounded_window_min_def third_pass_float_window [OF assms(1-5)] .
  qed
  have e2: "second_pass_float dmax nb nr nc src dest ! VPixelIndex nr nc b r c
      = spec_window_min ?R r ?WR"
    if a: "\<forall>rr<nr. 0 \<le> ?R rr \<and> ?R rr + (int r - int rr)\<^sup>2 < 2 ^ 24"
  proof -
    have "0 \<le> ?v \<and> ?v + (int r - int r)\<^sup>2 < 2 ^ 24" using a assms(2) by blast
    then have "to_VFloat ?v = ?v" by (intro to_VFloat_small) simp_all
    moreover have "rounded_window_min ?R r ?WR = spec_window_min ?R r ?WR"
      by (rule rounded_window_min_exact) (use a spec_window_bound in blast)
    ultimately show ?thesis using f2 by simp
  qed
  have e3: "third_pass_float dmax nb nr nc src dest ! VPixelIndex nr nc b r c
      = spec_window_min ?B b ?WB"
    if a: "\<forall>bb<nb. 0 \<le> ?B bb \<and> ?B bb + (int b - int bb)\<^sup>2 < 2 ^ 24"
  proof -
    have "0 \<le> ?v \<and> ?v + (int b - int b)\<^sup>2 < 2 ^ 24" using a assms(1) by blast
    then have "to_VFloat ?v = ?v" by (intro to_VFloat_small) simp_all
    moreover have "rounded_window_min ?B b ?WB = spec_window_min ?B b ?WB"
      by (rule rounded_window_min_exact) (use a spec_window_bound in blast)
    ultimately show ?thesis using f3 by simp
  qed
  show ?thesis
    unfolding g using s2 s3 f2 f3 e2 e3 by blast
qed

theorem window_minimum_of_passes_witness:
  "\<not> nine ! VPixelIndex 3 1 2 2 0
   \<and> 0 \<le> nine_field ! VPixelIndex 3 1 2 2 0
   \<and> nine_field ! VPixelIndex 3 1 2 2 0 \<le> VShort_max
   \<and> nine_field ! VPixelIndex 3 1 2 2 0 \<le> VFloat_max
   \<and> to_VFloat (nine_field ! VPixelIndex 3 1 2 2 0) = nine_field ! VPixelIndex 3 1 2 2 0
   \<and> nine_field ! VPixelIndex 3 1 2 0 0 + (int 2 - int 0)\<^sup>2 < 2 ^ 24
   \<and> nine_field ! VPixelIndex 3 1 0 2 0 + (int 2 - int 0)\<^sup>2 < 2 ^ 24
   \<and> second_pass VShort_max 3 3 1 nine nine_field ! VPixelIndex 3 1 2 2 0 =
       spec_window_min (\<lambda>rr. nine_field ! VPixelIndex 3 1 2 rr 0) 2
         (spec_window (int 2 - \<lfloor>sqrt (real_of_int (nine_field ! VPixelIndex 3 1 2 2 0))\<rfloor>) 3
            (int 2 + \<lfloor>sqrt (real_of_int (nine_field ! VPixelIndex 3 1 2 2 0))\<rfloor> + 1))
   \<and> third_pass VShort_max 3 3 1 nine nine_field ! VPixelIndex 3 1 2 2 0 =
       spec_window_min (\<lambda>bb. nine_field ! VPixelIndex 3 1 bb 2 0) 2
         (spec_window (int 2 - \<lfloor>sqrt (real_of_int (nine_field ! VPixelIndex 3 1 2 2 0))\<rfloor> - 1) 3
            (int 2 + \<lfloor>sqrt (real_of_int (nine_field ! VPixelIndex 3 1 2 2 0))\<rfloor> + 1))
   \<and> second_pass_float VFloat_max 3 3 1 nine nine_field ! VPixelIndex 3 1 2 2 0 =
       rounded_window_min (\<lambda>rr. nine_field ! VPixelIndex 3 1 2 rr 0) 2
         (spec_window (int 2 - \<lfloor>sqrt (real_of_int (nine_field ! VPixelIndex 3 1 2 2 0))\<rfloor>) 3
            (int 2 + \<lfloor>sqrt (real_of_int (nine_field ! VPixelIndex 3 1 2 2 0))\<rfloor> + 1))
   \<and> third_pass_float VFloat_max 3 3 1 nine nine_field ! VPixelIndex 3 1 2 2 0 =
       rounded_window_min (\<lambda>bb. nine_field ! VPixelIndex 3 1 bb 2 0) 2
         (spec_window (int 2 - \<lfloor>sqrt (real_of_int (nine_field ! VPixelIndex 3 1 2 2 0))\<rfloor> - 1) 3
            (int 2 + \<lfloor>sqrt (real_of_int (nine_field ! VPixelIndex 3 1 2 2 0))\<rfloor> + 1))
   \<and> second_pass_float VFloat_max 3 3 1 nine nine_field ! VPixelIndex 3 1 2 2 0 =
       spec_window_min (\<lambda>rr. nine_field ! VPixelIndex 3 1 2 rr 0) 2
         (spec_window (int 2 - \<lfloor>sqrt (real_of_int (nine_field ! VPixelIndex 3 1 2 2 0))\<rfloor>) 3
            (int 2 + \<lfloor>sqrt (real_of_int (nine_field ! VPixelIndex 3 1 2 2 0))\<rfloor> + 1))
   \<and> third_pass_float VFloat_max 3 3 1 nine nine_field ! VPixelIndex 3 1 2 2 0 =
       spec_window_min (\<lambda>bb. nine_field ! VPixelIndex 3 1 bb 2 0) 2
         (spec_window (int 2 - \<lfloor>sqrt (real_of_int (nine_field ! VPixelIndex 3 1 2 2 0))\<rfloor> - 1) 3
            (int 2 + \<lfloor>sqrt (real_of_int (nine_field ! VPixelIndex 3 1 2 2 0))\<rfloor> + 1))
   \<and> 0 \<notin> spec_window (int 2 - \<lfloor>sqrt (real_of_int (nine_field ! VPixelIndex 3 1 2 2 0))\<rfloor>) 3
            (int 2 + \<lfloor>sqrt (real_of_int (nine_field ! VPixelIndex 3 1 2 2 0))\<rfloor> + 1)
   \<and> 0 \<in> spec_window (int 2 - \<lfloor>sqrt (real_of_int (nine_field ! VPixelIndex 3 1 2 2 0))\<rfloor> - 1) 3
            (int 2 + \<lfloor>sqrt (real_of_int (nine_field ! VPixelIndex 3 1 2 2 0))\<rfloor> + 1)"
proof -
  have h: "(2::nat) < 3" "(2::nat) < 3" "(0::nat) < 1" "length nine_field = 3 * 3 * 1"
    "\<not> nine ! VPixelIndex 3 1 2 2 0" "0 \<le> nine_field ! VPixelIndex 3 1 2 2 0"
    by (simp_all add: nine_def nine_field_def VPixelIndex_def)
  have s: "nine_field ! VPixelIndex 3 1 2 2 0 \<le> VShort_max"
    by (simp add: nine_field_def VPixelIndex_def VShort_max_def)
  have f: "nine_field ! VPixelIndex 3 1 2 2 0 \<le> VFloat_max"
    by (simp add: nine_field_def VPixelIndex_def VFloat_max_def)
  have v: "to_VFloat (nine_field ! VPixelIndex 3 1 2 2 0) = nine_field ! VPixelIndex 3 1 2 2 0"
    by (rule to_VFloat_small) (simp_all add: nine_field_def VPixelIndex_def)
  have three: "k = 0 \<or> k = 1 \<or> k = 2" if "k < 3" for k :: nat using that by arith
  have rows: "\<forall>rr<3. 0 \<le> nine_field ! VPixelIndex 3 1 2 rr 0
      \<and> nine_field ! VPixelIndex 3 1 2 rr 0 + (int 2 - int rr)\<^sup>2 < 2 ^ 24"
  proof (intro allI impI)
    fix rr :: nat assume "rr < 3"
    then consider "rr = 0" | "rr = 1" | "rr = 2" using three by blast
    then show "0 \<le> nine_field ! VPixelIndex 3 1 2 rr 0
      \<and> nine_field ! VPixelIndex 3 1 2 rr 0 + (int 2 - int rr)\<^sup>2 < 2 ^ 24"
      by cases (simp_all add: nine_field_def VPixelIndex_def)
  qed
  have bands: "\<forall>bb<3. 0 \<le> nine_field ! VPixelIndex 3 1 bb 2 0
      \<and> nine_field ! VPixelIndex 3 1 bb 2 0 + (int 2 - int bb)\<^sup>2 < 2 ^ 24"
  proof (intro allI impI)
    fix bb :: nat assume "bb < 3"
    then consider "bb = 0" | "bb = 1" | "bb = 2" using three by blast
    then show "0 \<le> nine_field ! VPixelIndex 3 1 bb 2 0
      \<and> nine_field ! VPixelIndex 3 1 bb 2 0 + (int 2 - int bb)\<^sup>2 < 2 ^ 24"
      by cases (simp_all add: nine_field_def VPixelIndex_def)
  qed
  have r0: "nine_field ! VPixelIndex 3 1 2 0 0 + (int 2 - int 0)\<^sup>2 < 2 ^ 24"
    by (simp add: nine_field_def VPixelIndex_def)
  have b0: "nine_field ! VPixelIndex 3 1 0 2 0 + (int 2 - int 0)\<^sup>2 < 2 ^ 24"
    by (simp add: nine_field_def VPixelIndex_def)
  have g: "\<lfloor>sqrt (real_of_int (nine_field ! VPixelIndex 3 1 2 2 0))\<rfloor> = 1"
    by (simp add: nine_field_def VPixelIndex_def)
  have w1: "0 \<notin> spec_window (int 2 - \<lfloor>sqrt (real_of_int (nine_field ! VPixelIndex 3 1 2 2 0))\<rfloor>) 3
            (int 2 + \<lfloor>sqrt (real_of_int (nine_field ! VPixelIndex 3 1 2 2 0))\<rfloor> + 1)"
    unfolding g by (simp add: spec_window_def)
  have w2: "0 \<in> spec_window (int 2 - \<lfloor>sqrt (real_of_int (nine_field ! VPixelIndex 3 1 2 2 0))\<rfloor> - 1) 3
            (int 2 + \<lfloor>sqrt (real_of_int (nine_field ! VPixelIndex 3 1 2 2 0))\<rfloor> + 1)"
    unfolding g by (simp add: spec_window_def)
  note ts = window_minimum_of_passes [OF h s]
  note tf = window_minimum_of_passes [OF h f]
  note t1 = ts [THEN conjunct1]
  note t2 = ts [THEN conjunct2, THEN conjunct1]
  note t3 = tf [THEN conjunct2, THEN conjunct2, THEN conjunct1, THEN mp, OF v]
  note t4 = tf [THEN conjunct2, THEN conjunct2, THEN conjunct2, THEN conjunct1, THEN mp, OF rows]
  note t5 = tf [THEN conjunct2, THEN conjunct2, THEN conjunct2, THEN conjunct2, THEN mp, OF bands]
  show ?thesis
    using h(5,6) s f v r0 b0 t1 t2 t3 [THEN conjunct1] t3 [THEN conjunct2] t4 t5 w1 w2
    by (intro conjI)
qed

theorem window_minimum_of_passes_counterexample:
  "\<not> wide ! VPixelIndex 2 4098 0 1 0
   \<and> wide_first ! VPixelIndex 2 4098 0 0 0 = 16777216
   \<and> wide_first ! VPixelIndex 2 4098 0 1 0 = 16793604
   \<and> second_pass_float VFloat_max 1 2 4098 wide wide_first ! VPixelIndex 2 4098 0 1 0
       = 16777216
   \<and> spec_window_min wide_scratch 1
       (spec_window (int 1 - \<lfloor>sqrt (real_of_int (wide_first ! VPixelIndex 2 4098 0 1 0))\<rfloor>) 2
          (int 1 + \<lfloor>sqrt (real_of_int (wide_first ! VPixelIndex 2 4098 0 1 0))\<rfloor> + 1))
       = 16777217
   \<and> second_pass_float VFloat_max 1 2 4098 wide wide_first ! VPixelIndex 2 4098 0 1 0
       \<noteq> spec_window_min wide_scratch 1
       (spec_window (int 1 - \<lfloor>sqrt (real_of_int (wide_first ! VPixelIndex 2 4098 0 1 0))\<rfloor>) 2
          (int 1 + \<lfloor>sqrt (real_of_int (wide_first ! VPixelIndex 2 4098 0 1 0))\<rfloor> + 1))"
proof -
  have i0: "VPixelIndex 2 4098 0 0 0 = 0" by (simp add: VPixelIndex_def)
  have i1: "VPixelIndex 2 4098 0 1 0 = 4098" by (simp add: VPixelIndex_def)
  have a: "\<not> wide ! VPixelIndex 2 4098 0 1 0" unfolding i1 by (simp add: wide_nth)
  have "int_sqrt 16793604 = \<lfloor>sqrt (real_of_int 16793604)\<rfloor>"
    by (rule int_sqrt_floor) simp
  then have g: "\<lfloor>sqrt (real_of_int 16793604)\<rfloor> = 4098"
    unfolding int_sqrt_wide by simp
  show ?thesis
    unfolding i0 i1 wide_first_row_0 wide_first_row_1 second_pass_float_wide g
      spec_window_min_wide
    using a [unfolded i1] by simp
qed

text \<open>
  C10: the second and the third pass never increase the value of a voxel. At a
  background voxel whose value is not negative (as every representable squared value is)
  the window holds the voxel's own index, so the value written is at most the value
  before; a foreground voxel is skipped and keeps its value. In the float engine the
  candidate at the voxel's own index is its value rounded to a \<open>VFloat\<close>, which is the
  value itself when that is representable.
\<close>

theorem passes_never_increase:
  assumes "b < nb" "r < nr" "c < nc" and "length dest = nb * nr * nc"
    and "0 \<le> dest ! VPixelIndex nr nc b r c"
  shows "second_pass dmax nb nr nc src dest ! VPixelIndex nr nc b r c
           \<le> dest ! VPixelIndex nr nc b r c
       \<and> third_pass dmax nb nr nc src dest ! VPixelIndex nr nc b r c
           \<le> dest ! VPixelIndex nr nc b r c
       \<and> r \<in> spec_window (int r - int_sqrt (dest ! VPixelIndex nr nc b r c)) nr
               (int r + int_sqrt (dest ! VPixelIndex nr nc b r c) + 1)
       \<and> b \<in> spec_window (int b - int_sqrt (dest ! VPixelIndex nr nc b r c) - 1) nb
               (int b + int_sqrt (dest ! VPixelIndex nr nc b r c) + 1)
       \<and> (src ! VPixelIndex nr nc b r c \<longrightarrow>
            second_pass dmax nb nr nc src dest ! VPixelIndex nr nc b r c
              = dest ! VPixelIndex nr nc b r c
          \<and> third_pass dmax nb nr nc src dest ! VPixelIndex nr nc b r c
              = dest ! VPixelIndex nr nc b r c)
       \<and> (to_VFloat (dest ! VPixelIndex nr nc b r c) = dest ! VPixelIndex nr nc b r c \<longrightarrow>
            second_pass_float dmax nb nr nc src dest ! VPixelIndex nr nc b r c
              \<le> dest ! VPixelIndex nr nc b r c
          \<and> third_pass_float dmax nb nr nc src dest ! VPixelIndex nr nc b r c
              \<le> dest ! VPixelIndex nr nc b r c)
       \<and> (src ! VPixelIndex nr nc b r c \<longrightarrow>
            second_pass_float dmax nb nr nc src dest ! VPixelIndex nr nc b r c
              = dest ! VPixelIndex nr nc b r c
          \<and> third_pass_float dmax nb nr nc src dest ! VPixelIndex nr nc b r c
              = dest ! VPixelIndex nr nc b r c)"
proof -
  let ?i = "VPixelIndex nr nc b r c"
  let ?v = "dest ! ?i"
  have rw: "r \<in> spec_window (int r - int_sqrt ?v) nr (int r + int_sqrt ?v + 1)"
    using assms(2,5) by (rule row_window_self)
  have bw: "b \<in> spec_window (int b - int_sqrt ?v - 1) nb (int b + int_sqrt ?v + 1)"
    using assms(1,5) by (rule band_window_self)
  have fg: "second_pass dmax nb nr nc src dest ! ?i = ?v \<and> third_pass dmax nb nr nc src dest ! ?i = ?v"
    if "src ! ?i"
    using that assms(1-4) by (simp add: second_pass_nth third_pass_nth)
  have fgf: "second_pass_float dmax nb nr nc src dest ! ?i = ?v
      \<and> third_pass_float dmax nb nr nc src dest ! ?i = ?v"
    if "src ! ?i"
    using that assms(1-4) by (simp add: second_pass_float_nth third_pass_float_nth)
  have s: "second_pass dmax nb nr nc src dest ! ?i \<le> ?v"
  proof (cases "src ! ?i")
    case True
    then show ?thesis using fg by simp
  next
    case False
    show ?thesis
      unfolding second_pass_window [OF assms(1-4) False]
      by (rule Min_window_le [OF rw finite_spec_window]) simp
  qed
  have t: "third_pass dmax nb nr nc src dest ! ?i \<le> ?v"
  proof (cases "src ! ?i")
    case True
    then show ?thesis using fg by simp
  next
    case False
    show ?thesis
      unfolding third_pass_window [OF assms(1-4) False]
      by (rule Min_window_le [OF bw finite_spec_window]) simp
  qed
  have sf: "second_pass_float dmax nb nr nc src dest ! ?i \<le> ?v" if v: "to_VFloat ?v = ?v"
  proof (cases "src ! ?i")
    case True
    then show ?thesis using fgf by simp
  next
    case False
    show ?thesis
      unfolding second_pass_float_window [OF assms(1-4) False]
      by (rule Min_window_le [OF rw finite_spec_window]) (simp add: v)
  qed
  have tf: "third_pass_float dmax nb nr nc src dest ! ?i \<le> ?v" if v: "to_VFloat ?v = ?v"
  proof (cases "src ! ?i")
    case True
    then show ?thesis using fgf by simp
  next
    case False
    show ?thesis
      unfolding third_pass_float_window [OF assms(1-4) False]
      by (rule Min_window_le [OF bw finite_spec_window]) (simp add: v)
  qed
  show ?thesis using s t rw bw fg sf tf fgf by blast
qed

theorem passes_never_increase_witness:
  "0 \<le> column8_first ! VPixelIndex 8 1 0 6 0
   \<and> second_pass VShort_max 1 8 1 column8 column8_first ! VPixelIndex 8 1 0 6 0
           \<le> column8_first ! VPixelIndex 8 1 0 6 0
   \<and> third_pass VShort_max 1 8 1 column8 column8_first ! VPixelIndex 8 1 0 6 0
           \<le> column8_first ! VPixelIndex 8 1 0 6 0
   \<and> 6 \<in> spec_window (int 6 - int_sqrt (column8_first ! VPixelIndex 8 1 0 6 0)) 8
               (int 6 + int_sqrt (column8_first ! VPixelIndex 8 1 0 6 0) + 1)
   \<and> to_VFloat (column8_first ! VPixelIndex 8 1 0 6 0) = column8_first ! VPixelIndex 8 1 0 6 0
   \<and> second_pass_float VFloat_max 1 8 1 column8 column8_first ! VPixelIndex 8 1 0 6 0
           \<le> column8_first ! VPixelIndex 8 1 0 6 0
   \<and> third_pass_float VFloat_max 1 8 1 column8 column8_first ! VPixelIndex 8 1 0 6 0
           \<le> column8_first ! VPixelIndex 8 1 0 6 0
   \<and> column8 ! VPixelIndex 8 1 0 0 0
   \<and> 0 \<le> column8_first ! VPixelIndex 8 1 0 0 0
   \<and> second_pass VShort_max 1 8 1 column8 column8_first ! VPixelIndex 8 1 0 0 0
           = column8_first ! VPixelIndex 8 1 0 0 0
   \<and> third_pass VShort_max 1 8 1 column8 column8_first ! VPixelIndex 8 1 0 0 0
           = column8_first ! VPixelIndex 8 1 0 0 0
   \<and> second_pass_float VFloat_max 1 8 1 column8 column8_first ! VPixelIndex 8 1 0 0 0
           = column8_first ! VPixelIndex 8 1 0 0 0
   \<and> third_pass_float VFloat_max 1 8 1 column8 column8_first ! VPixelIndex 8 1 0 0 0
           = column8_first ! VPixelIndex 8 1 0 0 0"
proof -
  have h: "(0::nat) < 1" "(6::nat) < 8" "(0::nat) < 1" "length column8_first = 1 * 8 * 1"
    "0 \<le> column8_first ! VPixelIndex 8 1 0 6 0"
    by (simp_all add: column8_first_def VPixelIndex_def)
  have k: "(0::nat) < 1" "(0::nat) < 8" "(0::nat) < 1" "length column8_first = 1 * 8 * 1"
    "0 \<le> column8_first ! VPixelIndex 8 1 0 0 0"
    by (simp_all add: column8_first_def VPixelIndex_def)
  have v: "to_VFloat (column8_first ! VPixelIndex 8 1 0 6 0)
      = column8_first ! VPixelIndex 8 1 0 6 0"
    by (rule to_VFloat_small) (simp_all add: column8_first_def VPixelIndex_def)
  have fg: "column8 ! VPixelIndex 8 1 0 0 0"
    by (simp add: column8_def VPixelIndex_def)
  note a = passes_never_increase [OF h, of VShort_max column8]
  note b = passes_never_increase [OF h, of VFloat_max column8]
  note c = passes_never_increase [OF k, of VShort_max column8]
  note d = passes_never_increase [OF k, of VFloat_max column8]
  note a1 = a [THEN conjunct1]
  note a2 = a [THEN conjunct2, THEN conjunct1]
  note a3 = a [THEN conjunct2, THEN conjunct2, THEN conjunct1]
  note b6 = b [THEN conjunct2, THEN conjunct2, THEN conjunct2, THEN conjunct2, THEN conjunct2,
    THEN conjunct1, THEN mp, OF v]
  note c5 = c [THEN conjunct2, THEN conjunct2, THEN conjunct2, THEN conjunct2, THEN conjunct1,
    THEN mp, OF fg]
  note d7 = d [THEN conjunct2, THEN conjunct2, THEN conjunct2, THEN conjunct2, THEN conjunct2,
    THEN conjunct2, THEN mp, OF fg]
  show ?thesis
    using h(5) a1 a2 a3 v b6 [THEN conjunct1] b6 [THEN conjunct2] fg k(5)
      c5 [THEN conjunct1] c5 [THEN conjunct2] d7 [THEN conjunct1] d7 [THEN conjunct2]
    by (intro conjI)
qed

section \<open>Foreground voxels\<close>

text \<open>
  C7: at a foreground voxel the field is exactly 0 after the first, the second and the
  third pass, and so is the output, in both engines.
\<close>

theorem foreground_voxels_are_zero:
  assumes "b < nb" "r < nr" "c < nc" and "src ! VPixelIndex nr nc b r c"
  shows
    "(let i = VPixelIndex nr nc b r c;
          f1 = first_pass_float nb nr nc src (replicate (nb * nr * nc) 0);
          f2 = second_pass_float VFloat_max nb nr nc src f1;
          f3 = third_pass_float VFloat_max nb nr nc src f2;
          s1 = first_pass_short nb nr nc src (replicate (nb * nr * nc) 0);
          s2 = second_pass VShort_max nb nr nc src s1;
          s3 = third_pass VShort_max nb nr nc src s2
      in f1 ! i = 0 \<and> f2 ! i = 0 \<and> f3 ! i = 0
       \<and> VEDistFloat3d_pixels nb nr nc src ! i = 0
       \<and> s1 ! i = 0 \<and> s2 ! i = 0 \<and> s3 ! i = 0
       \<and> VEDistShort3d_pixels nb nr nc src ! i = 0)"
proof -
  let ?i = "VPixelIndex nr nc b r c"
  let ?z = "replicate (nb * nr * nc) (0::int)"
  let ?f1 = "first_pass_float nb nr nc src ?z"
  let ?f2 = "second_pass_float VFloat_max nb nr nc src ?f1"
  let ?f3 = "third_pass_float VFloat_max nb nr nc src ?f2"
  let ?s1 = "first_pass_short nb nr nc src ?z"
  let ?s2 = "second_pass VShort_max nb nr nc src ?s1"
  let ?s3 = "third_pass VShort_max nb nr nc src ?s2"
  have i: "?i < nb * nr * nc" using assms(1-3) by (rule VPixelIndex_less)
  have z: "length ?z = nb * nr * nc" by simp
  have lf1: "length ?f1 = nb * nr * nc" by (simp add: length_first_pass_float)
  have lf2: "length ?f2 = nb * nr * nc" by (simp add: length_second_pass_float lf1)
  have lf3: "length ?f3 = nb * nr * nc" by (simp add: length_third_pass_float lf2)
  have ls1: "length ?s1 = nb * nr * nc" by (simp add: length_first_pass_short)
  have ls2: "length ?s2 = nb * nr * nc" by (simp add: length_second_pass ls1)
  have ls3: "length ?s3 = nb * nr * nc" by (simp add: length_third_pass ls2)
  have f1: "?f1 ! ?i = 0"
    using assms(4) by (simp add: first_pass_float_nth [OF assms(1-3) z])
  have f2: "?f2 ! ?i = 0"
    using assms(4) f1 by (simp add: second_pass_float_nth [OF assms(1-3) lf1])
  have f3: "?f3 ! ?i = 0"
    using assms(4) f2 by (simp add: third_pass_float_nth [OF assms(1-3) lf2])
  have ex: "list_ex (\<lambda>c. src ! VPixelIndex nr nc b r c) [0..<nc]"
    using assms(3,4) by (rule list_ex_upt)
  have s1: "?s1 ! ?i = 0"
    using assms(4) ex by (simp add: first_pass_short_nth [OF assms(1-3) z])
  have s2: "?s2 ! ?i = 0"
    using assms(4) s1 by (simp add: second_pass_nth [OF assms(1-3) ls1])
  have s3: "?s3 ! ?i = 0"
    using assms(4) s2 by (simp add: third_pass_nth [OF assms(1-3) ls2])
  have ff: "VEDistFloat3d_pixels nb nr nc src ! ?i = 0"
    unfolding VEDistFloat3d_pixels_def squared_field_float_def Let_def VFillImage_def
    using i lf3 f3 by (simp add: final_float_0)
  have fs: "VEDistShort3d_pixels nb nr nc src ! ?i = 0"
    unfolding VEDistShort3d_pixels_def squared_field_short_def Let_def VFillImage_def
    using i ls3 s3 by (simp add: final_short_0)
  show ?thesis
    unfolding Let_def using f1 f2 f3 ff s1 s2 s3 fs by blast
qed

theorem foreground_voxels_are_zero_witness:
  "column8 ! VPixelIndex 8 1 0 0 0
   \<and> (let i = VPixelIndex 8 1 0 0 0;
          f1 = first_pass_float 1 8 1 column8 (replicate (1 * 8 * 1) 0);
          f2 = second_pass_float VFloat_max 1 8 1 column8 f1;
          f3 = third_pass_float VFloat_max 1 8 1 column8 f2;
          s1 = first_pass_short 1 8 1 column8 (replicate (1 * 8 * 1) 0);
          s2 = second_pass VShort_max 1 8 1 column8 s1;
          s3 = third_pass VShort_max 1 8 1 column8 s2
      in f1 ! i = 0 \<and> f2 ! i = 0 \<and> f3 ! i = 0
       \<and> VEDistFloat3d_pixels 1 8 1 column8 ! i = 0
       \<and> s1 ! i = 0 \<and> s2 ! i = 0 \<and> s3 ! i = 0
       \<and> VEDistShort3d_pixels 1 8 1 column8 ! i = 0)"
proof -
  have h: "(0::nat) < 1" "(0::nat) < 8" "(0::nat) < 1" "column8 ! VPixelIndex 8 1 0 0 0"
    by (simp_all add: column8_def VPixelIndex_def)
  show ?thesis
    using foreground_voxels_are_zero [OF h] h(4) by blast
qed

section \<open>Finalization\<close>







section \<open>The distance of a single foreground voxel\<close>

text \<open>
  C1: in a volume with one foreground voxel the output at a background voxel is the
  distance to that voxel (ten times the distance, rounded, in the short engine). The
  engines do not compute that. In the column of eight voxels the last voxel is at
  distance 7 from the foreground voxel; the float engine gives 1 and the short engine 57,
  not 70. In the row of three voxels, whose foreground voxel is in column 0, the float
  engine gives 3 for the voxel next to it.
\<close>

theorem single_foreground_distance_differs:
  "VEDistFloat3d_pixels 1 8 1 column8 ! VPixelIndex 8 1 0 7 0 = 1
   \<and> VEDistShort3d_pixels 1 8 1 column8 ! VPixelIndex 8 1 0 7 0 = 57
   \<and> sqrt (real_of_int (min_sq_dist 1 8 1 column8 (0, 7, 0))) = 7
   \<and> VRint (10 * sqrt (real_of_int (min_sq_dist 1 8 1 column8 (0, 7, 0)))) = 70
   \<and> VEDistFloat3d_pixels 1 1 3 row3 ! VPixelIndex 1 3 0 0 1 = 3
   \<and> sqrt (real_of_int (min_sq_dist 1 1 3 row3 (0, 0, 1))) = 1"
  unfolding VEDistFloat3d_pixels_def VEDistShort3d_pixels_def
    squared_field_short_column8 squared_field_float_column8 squared_field_float_row3
    min_sq_dist_column8 min_sq_dist_row3 VPixelIndex_column8 VPixelIndex_row3
  by (simp add: final_float_1 final_float_9 final_short_32 sqrt_49 VRint_70)

section \<open>Reflection along the columns\<close>

text \<open>
  C6: the transform of the reflected volume is the reflection of the transform. For the
  float engine and the column axis it is not: the row of three voxels with its foreground
  voxel in column 0 gives the distances 0, 3, 3, and the reflected row, with its
  foreground voxel in column 2, gives 2, 1, 0. The short engine gives 0, 10, 20 and
  20, 10, 0.
\<close>

theorem column_reflection_differs:
  "VEDistFloat3d_pixels 1 1 3 row3 = [0, 3, 3]
   \<and> VEDistFloat3d_pixels 1 1 3 (reflect_columns 1 1 3 row3) = [2, 1, 0]
   \<and> VEDistFloat3d_pixels 1 1 3 (reflect_columns 1 1 3 row3)
       \<noteq> reflect_columns 1 1 3 (VEDistFloat3d_pixels 1 1 3 row3)
   \<and> VEDistShort3d_pixels 1 1 3 row3 = [0, 10, 20]
   \<and> VEDistShort3d_pixels 1 1 3 (reflect_columns 1 1 3 row3) = [20, 10, 0]"
proof -
  have r: "reflect_columns 1 1 3 row3 = [False, False, True]"
    unfolding row3_def by (rule reflect_columns_3)
  have a: "VEDistFloat3d_pixels 1 1 3 row3 = [0, 3, 3]"
    unfolding VEDistFloat3d_pixels_def squared_field_float_row3
    by (simp add: final_float_0 final_float_9)
  have b: "VEDistFloat3d_pixels 1 1 3 (reflect_columns 1 1 3 row3) = [2, 1, 0]"
    unfolding r VEDistFloat3d_pixels_def squared_field_float_row3_reflected
    by (simp add: final_float_0 final_float_1 final_float_4)
  have c: "VEDistShort3d_pixels 1 1 3 row3 = [0, 10, 20]"
    unfolding VEDistShort3d_pixels_def squared_field_short_row3
    by (simp add: final_short_0 final_short_1 final_short_4)
  have d: "VEDistShort3d_pixels 1 1 3 (reflect_columns 1 1 3 row3) = [20, 10, 0]"
    unfolding r VEDistShort3d_pixels_def squared_field_short_row3_reflected
    by (simp add: final_short_0 final_short_1 final_short_4)
  have e: "VEDistFloat3d_pixels 1 1 3 (reflect_columns 1 1 3 row3)
       \<noteq> reflect_columns 1 1 3 (VEDistFloat3d_pixels 1 1 3 row3)"
    unfolding b a reflect_columns_3 by simp
  show ?thesis using a b c d e by blast
qed

end
